theory Spec2Isabelle
  imports Main "HOL-Library.Word"
begin

unbundle bit_operations_syntax

section \<open>The JTAG TAP state machine of jtag\_tap.c\<close>

subsection \<open>TAP states\<close>

text \<open>
  Modelled from the spec: the enum of TAP states is declared in jtag.h, which is not
  among the sources. The sixteen states and their numbering 0x0 .. 0xF are those of the
  table in the comment above \<open>tms_map\<close> in jtag\_tap.c, which is also the order of
  the rows of \<open>tms_transitions\<close>.
\<close>

datatype TapState =
    STATE_TEST_LOGIC_RESET
  | STATE_RUN_TEST_IDLE
  | STATE_SELECT_DR_SCAN
  | STATE_CAPTURE_DR
  | STATE_SHIFT_DR
  | STATE_EXIT1_DR
  | STATE_PAUSE_DR
  | STATE_EXIT2_DR
  | STATE_UPDATE_DR
  | STATE_SELECT_IR_SCAN
  | STATE_CAPTURE_IR
  | STATE_SHIFT_IR
  | STATE_EXIT1_IR
  | STATE_PAUSE_IR
  | STATE_EXIT2_IR
  | STATE_UPDATE_IR

text \<open>The numeric value of an enumerator, and the state a number in 0 .. 15 stands for.\<close>

fun state_code :: "TapState \<Rightarrow> nat" where
  "state_code STATE_TEST_LOGIC_RESET = 0"
| "state_code STATE_RUN_TEST_IDLE = 1"
| "state_code STATE_SELECT_DR_SCAN = 2"
| "state_code STATE_CAPTURE_DR = 3"
| "state_code STATE_SHIFT_DR = 4"
| "state_code STATE_EXIT1_DR = 5"
| "state_code STATE_PAUSE_DR = 6"
| "state_code STATE_EXIT2_DR = 7"
| "state_code STATE_UPDATE_DR = 8"
| "state_code STATE_SELECT_IR_SCAN = 9"
| "state_code STATE_CAPTURE_IR = 10"
| "state_code STATE_SHIFT_IR = 11"
| "state_code STATE_EXIT1_IR = 12"
| "state_code STATE_PAUSE_IR = 13"
| "state_code STATE_EXIT2_IR = 14"
| "state_code STATE_UPDATE_IR = 15"

definition all_states :: "TapState list" where
  "all_states =
    [STATE_TEST_LOGIC_RESET, STATE_RUN_TEST_IDLE, STATE_SELECT_DR_SCAN, STATE_CAPTURE_DR,
     STATE_SHIFT_DR, STATE_EXIT1_DR, STATE_PAUSE_DR, STATE_EXIT2_DR,
     STATE_UPDATE_DR, STATE_SELECT_IR_SCAN, STATE_CAPTURE_IR, STATE_SHIFT_IR,
     STATE_EXIT1_IR, STATE_PAUSE_IR, STATE_EXIT2_IR, STATE_UPDATE_IR]"

definition state_of_code :: "8 word \<Rightarrow> TapState" where
  "state_of_code w = all_states ! unat (w AND 0xf)"

subsection \<open>The transition table and the next-hop map\<close>

text \<open>\<open>#define TMS_T(TMS_HIGH_STATE, TMS_LOW_STATE) (((TMS_HIGH_STATE) << 4) | (TMS_LOW_STATE))\<close>\<close>

definition TMS_T :: "TapState \<Rightarrow> TapState \<Rightarrow> 8 word" where
  "TMS_T TMS_HIGH_STATE TMS_LOW_STATE =
     push_bit 4 (of_nat (state_code TMS_HIGH_STATE)) OR of_nat (state_code TMS_LOW_STATE)"

text \<open>\<open>static const uint8_t tms_transitions[]\<close>, indexed by the current state.\<close>

fun tms_transitions :: "TapState \<Rightarrow> 8 word" where
  "tms_transitions STATE_TEST_LOGIC_RESET = TMS_T STATE_TEST_LOGIC_RESET STATE_RUN_TEST_IDLE"
| "tms_transitions STATE_RUN_TEST_IDLE    = TMS_T STATE_SELECT_DR_SCAN   STATE_RUN_TEST_IDLE"
| "tms_transitions STATE_SELECT_DR_SCAN   = TMS_T STATE_SELECT_IR_SCAN   STATE_CAPTURE_DR"
| "tms_transitions STATE_CAPTURE_DR       = TMS_T STATE_EXIT1_DR         STATE_SHIFT_DR"
| "tms_transitions STATE_SHIFT_DR         = TMS_T STATE_EXIT1_DR         STATE_SHIFT_DR"
| "tms_transitions STATE_EXIT1_DR         = TMS_T STATE_UPDATE_DR        STATE_PAUSE_DR"
| "tms_transitions STATE_PAUSE_DR         = TMS_T STATE_EXIT2_DR         STATE_PAUSE_DR"
| "tms_transitions STATE_EXIT2_DR         = TMS_T STATE_UPDATE_DR        STATE_SHIFT_DR"
| "tms_transitions STATE_UPDATE_DR        = TMS_T STATE_SELECT_DR_SCAN   STATE_RUN_TEST_IDLE"
| "tms_transitions STATE_SELECT_IR_SCAN   = TMS_T STATE_TEST_LOGIC_RESET STATE_CAPTURE_IR"
| "tms_transitions STATE_CAPTURE_IR       = TMS_T STATE_EXIT1_IR         STATE_SHIFT_IR"
| "tms_transitions STATE_SHIFT_IR         = TMS_T STATE_EXIT1_IR         STATE_SHIFT_IR"
| "tms_transitions STATE_EXIT1_IR         = TMS_T STATE_UPDATE_IR        STATE_PAUSE_IR"
| "tms_transitions STATE_PAUSE_IR         = TMS_T STATE_EXIT2_IR         STATE_PAUSE_IR"
| "tms_transitions STATE_EXIT2_IR         = TMS_T STATE_UPDATE_IR        STATE_SHIFT_IR"
| "tms_transitions STATE_UPDATE_IR        = TMS_T STATE_SELECT_DR_SCAN   STATE_RUN_TEST_IDLE"

text \<open>The macro \<open>BITSTR(A, ..., P)\<close>: sixteen bits, \<open>A\<close> the most significant.\<close>

definition BITSTR ::
  "16 word \<Rightarrow> 16 word \<Rightarrow> 16 word \<Rightarrow> 16 word \<Rightarrow> 16 word \<Rightarrow> 16 word \<Rightarrow> 16 word \<Rightarrow> 16 word \<Rightarrow>
   16 word \<Rightarrow> 16 word \<Rightarrow> 16 word \<Rightarrow> 16 word \<Rightarrow> 16 word \<Rightarrow> 16 word \<Rightarrow> 16 word \<Rightarrow> 16 word \<Rightarrow> 16 word"
where
  "BITSTR A B C D E F G H I J K L M N O' P =
     (push_bit 15 A OR push_bit 14 B OR push_bit 13 C OR push_bit 12 D OR
      push_bit 11 E OR push_bit 10 F OR push_bit 9 G OR push_bit 8 H OR
      push_bit 7 I OR push_bit 6 J OR push_bit 5 K OR push_bit 4 L OR
      push_bit 3 M OR push_bit 2 N OR push_bit 1 O' OR push_bit 0 P)"

text \<open>
  \<open>static const uint16_t tms_map[]\<close>: the index is the current state, bit \<open>i\<close> is the
  value TMS must take to move towards state \<open>i\<close>.
\<close>

fun tms_map :: "TapState \<Rightarrow> 16 word" where
  "tms_map STATE_TEST_LOGIC_RESET = BITSTR  0 0 0 0  0 0 0 0  0 0 0 0  0 0 0 1"
| "tms_map STATE_RUN_TEST_IDLE    = BITSTR  1 1 1 1  1 1 1 1  1 1 1 1  1 1 0 1"
| "tms_map STATE_SELECT_DR_SCAN   = BITSTR  1 1 1 1  1 1 1 0  0 0 0 0  0 0 1 1"
| "tms_map STATE_CAPTURE_DR       = BITSTR  1 1 1 1  1 1 1 1  1 1 1 0  0 1 1 1"
| "tms_map STATE_SHIFT_DR         = BITSTR  1 1 1 1  1 1 1 1  1 1 1 0  1 1 1 1"
| "tms_map STATE_EXIT1_DR         = BITSTR  1 1 1 1  1 1 1 1  0 0 0 0  1 1 1 1"
| "tms_map STATE_PAUSE_DR         = BITSTR  1 1 1 1  1 1 1 1  1 0 1 1  1 1 1 1"
| "tms_map STATE_EXIT2_DR         = BITSTR  1 1 1 1  1 1 1 1  0 0 0 0  1 1 1 1"
| "tms_map STATE_UPDATE_DR        = BITSTR  1 1 1 1  1 1 1 0  1 1 1 1  1 1 0 1"
| "tms_map STATE_SELECT_IR_SCAN   = BITSTR  0 0 0 0  0 0 0 1  1 1 1 1  1 1 1 1"
| "tms_map STATE_CAPTURE_IR       = BITSTR  1 1 1 1  0 0 1 1  1 1 1 1  1 1 1 1"
| "tms_map STATE_SHIFT_IR         = BITSTR  1 1 1 1  0 1 1 1  1 1 1 1  1 1 1 1"
| "tms_map STATE_EXIT1_IR         = BITSTR  1 0 0 0  0 1 1 1  1 1 1 1  1 1 1 1"
| "tms_map STATE_PAUSE_IR         = BITSTR  1 1 0 1  1 1 1 1  1 1 1 1  1 1 1 1"
| "tms_map STATE_EXIT2_IR         = BITSTR  1 0 0 0  0 1 1 1  1 1 1 1  1 1 1 1"
| "tms_map STATE_UPDATE_IR        = BITSTR  0 1 1 1  1 1 1 1  1 1 1 1  1 1 0 1"

subsection \<open>The MPSSE command bits\<close>

text \<open>
  Modelled from the spec: mpsse.h, which defines the MPSSE transfer command bits, is not
  among the sources. The values are the ones of the FTDI command processor (AN\_108) that
  the spec's transport boundary refers to: TMS mode, read data, write data, LSB first,
  sample on the negative edge, count bits, update on the negative edge.
\<close>

definition MC_DATA_TMS :: "8 word" where "MC_DATA_TMS = 0x40"
definition MC_DATA_IN :: "8 word" where "MC_DATA_IN = 0x20"
definition MC_DATA_OUT :: "8 word" where "MC_DATA_OUT = 0x10"
definition MC_DATA_LSB :: "8 word" where "MC_DATA_LSB = 0x08"
definition MC_DATA_ICN :: "8 word" where "MC_DATA_ICN = 0x04"
definition MC_DATA_BITS :: "8 word" where "MC_DATA_BITS = 0x02"
definition MC_DATA_OCN :: "8 word" where "MC_DATA_OCN = 0x01"

subsection \<open>The state of the JTAG layer\<close>

text \<open>
  The globals of jtag\_tap.c: \<open>current_state\<close>, the staging buffer \<open>data[1024]\<close>,
  the write pointer \<open>ptr\<close> (kept as its offset into \<open>data\<close>) and the 8-bit counter
  \<open>rx_cnt\<close>. Two history fields record what the code does to its surroundings:
  \<open>acks\<close> holds the argument of every call of \<open>jtag_state_ack\<close>, \<open>sent\<close> every
  buffer passed to \<open>ftdi_write_data\<close>, both in call order. The FTDI library is outside
  the repository: \<open>rx\<close> is the sequence of bytes the device will return. The model is
  of runs on a working link, where \<open>ftdi_write_data\<close> accepts every buffer whole and
  \<open>ftdi_read_data\<close> delivers the bytes asked for (in one or more short reads), so that
  \<open>mpsse_error\<close> is not reached.
\<close>

record jtag =
  current_state :: TapState
  data :: "8 word list"
  ptr :: nat
  rx_cnt :: "8 word"
  acks :: "bool list"
  sent :: "8 word list list"
  rx :: "nat \<Rightarrow> 8 word"

definition jtag_current_state :: "jtag \<Rightarrow> TapState" where
  "jtag_current_state s = current_state s"

definition jtag_set_current_state :: "TapState \<Rightarrow> jtag \<Rightarrow> jtag" where
  "jtag_set_current_state state s = s\<lparr>current_state := state\<rparr>"

text \<open>
  \<open>jtag_state_ack\<close>: the high nibble of the table entry is the successor for TMS = 1,
  the low nibble the successor for TMS = 0.
\<close>

definition jtag_state_ack :: "bool \<Rightarrow> jtag \<Rightarrow> jtag" where
  "jtag_state_ack tms s =
     (let s' = s\<lparr>acks := acks s @ [tms]\<rparr> in
      if tms then
        jtag_set_current_state
          (state_of_code (drop_bit 4 (tms_transitions (jtag_current_state s')) AND 0xf)) s'
      else
        jtag_set_current_state
          (state_of_code (tms_transitions (jtag_current_state s') AND 0xf)) s')"

text \<open>
  \<open>mpsse_xfer(data_buffer, send_length, receive_length)\<close> of mpsse.c. The buffer is
  passed and returned as a list: the first \<open>send_length\<close> bytes are written to the
  device if \<open>send_length\<close> is not zero, then the first \<open>receive_length\<close> bytes are
  overwritten with the bytes read.
\<close>

definition mpsse_xfer :: "8 word list \<Rightarrow> nat \<Rightarrow> nat \<Rightarrow> jtag \<Rightarrow> 8 word list \<times> jtag" where
  "mpsse_xfer data_buffer send_length receive_length s =
     (let s1 = (if send_length \<noteq> 0
                then s\<lparr>sent := sent s @ [take send_length data_buffer]\<rparr> else s)
      in if receive_length \<noteq> 0
         then (map (rx s1) [0..<receive_length] @ drop receive_length data_buffer,
               s1\<lparr>rx := (\<lambda>k. rx s1 (k + receive_length))\<rparr>)
         else (data_buffer, s1))"

subsection \<open>Navigation: \<open>jtag_go_to_state\<close>\<close>

text \<open>The TMS value the map gives in state \<open>cur\<close> for the target \<open>state\<close>:
  \<open>(tms_map[cur] >> state) & 1\<close>.\<close>

definition tms_bit :: "TapState \<Rightarrow> TapState \<Rightarrow> 16 word" where
  "tms_bit cur state = drop_bit (state_code state) (tms_map cur) AND 1"

text \<open>The body of the \<open>while\<close> loop: the state update, then the one-bit TMS command.\<close>

definition go_step :: "TapState \<Rightarrow> jtag \<Rightarrow> jtag" where
  "go_step state s =
     (let data' = [MC_DATA_TMS OR MC_DATA_LSB OR MC_DATA_ICN OR MC_DATA_BITS,
                   0,
                   ucast (tms_bit (jtag_current_state s) state)];
          s1 = jtag_state_ack (tms_bit (jtag_current_state s) state \<noteq> 0) s
      in snd (mpsse_xfer data' 3 0 s1))"

text \<open>
  The successor of a state under one TMS bit, as \<open>jtag_state_ack\<close> computes it, and the
  state the loop body moves to.
\<close>

definition tap_next :: "bool \<Rightarrow> TapState \<Rightarrow> TapState" where
  "tap_next tms cur =
     (if tms then state_of_code (drop_bit 4 (tms_transitions cur) AND 0xf)
      else state_of_code (tms_transitions cur AND 0xf))"

definition hop :: "TapState \<Rightarrow> TapState \<Rightarrow> TapState" where
  "hop cur state = tap_next (tms_bit cur state \<noteq> 0) cur"

text \<open>
  The TMS bits the loop emits on its way from \<open>cur\<close> to \<open>state\<close>, listed up to a
  bound on their number.
\<close>

fun tms_path :: "nat \<Rightarrow> TapState \<Rightarrow> TapState \<Rightarrow> bool list" where
  "tms_path 0 cur state = []"
| "tms_path (Suc n) cur state =
     (if cur = state then []
      else (tms_bit cur state \<noteq> 0) # tms_path n (hop cur state) state)"

lemma tms_map_hex:
  "tms_map STATE_TEST_LOGIC_RESET = 0x0001"
  "tms_map STATE_RUN_TEST_IDLE    = 0xFFFD"
  "tms_map STATE_SELECT_DR_SCAN   = 0xFE03"
  "tms_map STATE_CAPTURE_DR       = 0xFFE7"
  "tms_map STATE_SHIFT_DR         = 0xFFEF"
  "tms_map STATE_EXIT1_DR         = 0xFF0F"
  "tms_map STATE_PAUSE_DR         = 0xFFBF"
  "tms_map STATE_EXIT2_DR         = 0xFF0F"
  "tms_map STATE_UPDATE_DR        = 0xFEFD"
  "tms_map STATE_SELECT_IR_SCAN   = 0x01FF"
  "tms_map STATE_CAPTURE_IR       = 0xF3FF"
  "tms_map STATE_SHIFT_IR         = 0xF7FF"
  "tms_map STATE_EXIT1_IR         = 0x87FF"
  "tms_map STATE_PAUSE_IR         = 0xDFFF"
  "tms_map STATE_EXIT2_IR         = 0x87FF"
  "tms_map STATE_UPDATE_IR        = 0x7FFD"
  by (simp_all add: BITSTR_def)

lemma tap_next_1:
  "tap_next True STATE_TEST_LOGIC_RESET = STATE_TEST_LOGIC_RESET"
  "tap_next True STATE_RUN_TEST_IDLE    = STATE_SELECT_DR_SCAN"
  "tap_next True STATE_SELECT_DR_SCAN   = STATE_SELECT_IR_SCAN"
  "tap_next True STATE_CAPTURE_DR       = STATE_EXIT1_DR"
  "tap_next True STATE_SHIFT_DR         = STATE_EXIT1_DR"
  "tap_next True STATE_EXIT1_DR         = STATE_UPDATE_DR"
  "tap_next True STATE_PAUSE_DR         = STATE_EXIT2_DR"
  "tap_next True STATE_EXIT2_DR         = STATE_UPDATE_DR"
  "tap_next True STATE_UPDATE_DR        = STATE_SELECT_DR_SCAN"
  "tap_next True STATE_SELECT_IR_SCAN   = STATE_TEST_LOGIC_RESET"
  "tap_next True STATE_CAPTURE_IR       = STATE_EXIT1_IR"
  "tap_next True STATE_SHIFT_IR         = STATE_EXIT1_IR"
  "tap_next True STATE_EXIT1_IR         = STATE_UPDATE_IR"
  "tap_next True STATE_PAUSE_IR         = STATE_EXIT2_IR"
  "tap_next True STATE_EXIT2_IR         = STATE_UPDATE_IR"
  "tap_next True STATE_UPDATE_IR        = STATE_SELECT_DR_SCAN"
  by (simp_all add: tap_next_def TMS_T_def state_of_code_def all_states_def)

lemma tap_next_0:
  "tap_next False STATE_TEST_LOGIC_RESET = STATE_RUN_TEST_IDLE"
  "tap_next False STATE_RUN_TEST_IDLE    = STATE_RUN_TEST_IDLE"
  "tap_next False STATE_SELECT_DR_SCAN   = STATE_CAPTURE_DR"
  "tap_next False STATE_CAPTURE_DR       = STATE_SHIFT_DR"
  "tap_next False STATE_SHIFT_DR         = STATE_SHIFT_DR"
  "tap_next False STATE_EXIT1_DR         = STATE_PAUSE_DR"
  "tap_next False STATE_PAUSE_DR         = STATE_PAUSE_DR"
  "tap_next False STATE_EXIT2_DR         = STATE_SHIFT_DR"
  "tap_next False STATE_UPDATE_DR        = STATE_RUN_TEST_IDLE"
  "tap_next False STATE_SELECT_IR_SCAN   = STATE_CAPTURE_IR"
  "tap_next False STATE_CAPTURE_IR       = STATE_SHIFT_IR"
  "tap_next False STATE_SHIFT_IR         = STATE_SHIFT_IR"
  "tap_next False STATE_EXIT1_IR         = STATE_PAUSE_IR"
  "tap_next False STATE_PAUSE_IR         = STATE_PAUSE_IR"
  "tap_next False STATE_EXIT2_IR         = STATE_SHIFT_IR"
  "tap_next False STATE_UPDATE_IR        = STATE_RUN_TEST_IDLE"
  by (simp_all add: tap_next_def TMS_T_def state_of_code_def all_states_def)

lemma and_one_bit: "drop_bit n (w::16 word) AND 1 = of_bool (bit w n)"
  by (simp add: and_one_eq bit_iff_odd_drop_bit mod_2_eq_odd)

lemma tms_bit_nz: "tms_bit c t \<noteq> 0 \<longleftrightarrow> bit (tms_map c) (state_code t)"
  by (simp add: tms_bit_def and_one_bit)

lemmas hop_eval = hop_def tms_bit_nz tms_map_hex tap_next_0 tap_next_1

lemma tms_path_step:
  "c \<noteq> t \<Longrightarrow> tms_path 9 c t = (tms_bit c t \<noteq> 0) # tms_path 9 (hop c t) t"
  by (cases c; cases t; simp add: eval_nat_numeral hop_eval del: tms_map.simps)

lemma tms_path_same: "tms_path 9 t t = []"
  by (simp add: eval_nat_numeral)


lemma current_state_ack [simp]:
  "current_state (jtag_state_ack tms s) = tap_next tms (current_state s)"
  by (simp add: jtag_state_ack_def jtag_set_current_state_def jtag_current_state_def
      tap_next_def Let_def)

lemma current_state_xfer [simp]:
  "current_state (snd (mpsse_xfer b n m s)) = current_state s"
  by (simp add: mpsse_xfer_def Let_def)

lemma current_state_go_step [simp]:
  "current_state (go_step t s) = hop (current_state s) t"
  by (simp add: go_step_def hop_def jtag_current_state_def Let_def)

text \<open>
  The \<open>while (jtag_current_state() != state)\<close> loop. It terminates for every pair of
  states because each iteration lowers the number of hops left.
\<close>

function go_to_state_loop :: "TapState \<Rightarrow> jtag \<Rightarrow> jtag" where
  "go_to_state_loop state s =
     (if jtag_current_state s \<noteq> state then go_to_state_loop state (go_step state s) else s)"
  by pat_completeness auto
termination
  by (relation "measure (\<lambda>(state, s). length (tms_path 9 (current_state s) state))")
     (auto simp: jtag_current_state_def tms_path_step)

declare go_to_state_loop.simps [simp del]

text \<open>
  \<open>jtag_go_to_state\<close>: for Test-Logic-Reset five state updates with TMS = 1 and one
  command clocking out five TMS bits \<open>0b11111\<close>; for any other target the loop.
\<close>

definition jtag_go_to_state :: "TapState \<Rightarrow> jtag \<Rightarrow> jtag" where
  "jtag_go_to_state state s =
     (if state = STATE_TEST_LOGIC_RESET then
        let s1 = (jtag_state_ack True ^^ 5) s;
            data' = [MC_DATA_TMS OR MC_DATA_LSB OR MC_DATA_BITS, 5 - 1, 0x1F]
        in snd (mpsse_xfer data' 3 0 s1)
      else go_to_state_loop state s)"

text \<open>A JTAG layer in state \<open>c\<close> with empty histories, for concrete runs.\<close>

definition jtag_at :: "TapState \<Rightarrow> jtag" where
  "jtag_at c = \<lparr>current_state = c, data = replicate 1024 0, ptr = 0, rx_cnt = 0,
                acks = [], sent = [], rx = (\<lambda>_. 0)\<rparr>"

text \<open>
  Modelled from the spec: the device side of the link is not part of the repository. A
  TMS command of the MPSSE is three bytes: the opcode with the TMS bit set, the number of
  bits minus one, and a byte whose bits are clocked out on TMS from bit 0 upwards (bit 7
  of that byte is the level of TDI meanwhile). \<open>tms_wire\<close> reads a written buffer of
  such commands as the TMS levels of its clock pulses, \<open>tdi_wire\<close> as the TDI levels.
\<close>

fun tms_wire :: "8 word list \<Rightarrow> bool list" where
  "tms_wire (opc # n # d # rest) =
     (if opc AND MC_DATA_TMS \<noteq> 0 then map (bit d) [0..<Suc (unat n)] else []) @ tms_wire rest"
| "tms_wire _ = []"

fun tdi_wire :: "8 word list \<Rightarrow> bool list" where
  "tdi_wire (opc # n # d # rest) =
     (if opc AND MC_DATA_TMS \<noteq> 0 then replicate (Suc (unat n)) (bit d 7) else [])
       @ tdi_wire rest"
| "tdi_wire _ = []"

text \<open>The one-bit TMS command the loop writes for a TMS level.\<close>

definition tms_cmd :: "bool \<Rightarrow> 8 word list" where
  "tms_cmd b = [MC_DATA_TMS OR MC_DATA_LSB OR MC_DATA_ICN OR MC_DATA_BITS, 0, of_bool b]"

lemma ucast_tms_bit: "(ucast (tms_bit c t) :: 8 word) = of_bool (tms_bit c t \<noteq> 0)"
  by (simp add: tms_bit_def and_one_bit)

lemma go_step_eq:
  "go_step t s =
     s\<lparr>acks := acks s @ [tms_bit (current_state s) t \<noteq> 0],
       current_state := hop (current_state s) t,
       sent := sent s @ [tms_cmd (tms_bit (current_state s) t \<noteq> 0)]\<rparr>"
  by (simp add: go_step_def jtag_state_ack_def jtag_set_current_state_def
      jtag_current_state_def mpsse_xfer_def Let_def hop_def tap_next_def tms_cmd_def
      ucast_tms_bit)

lemma go_to_state_loop_eq:
  "go_to_state_loop t s =
     s\<lparr>acks := acks s @ tms_path 9 (current_state s) t,
       current_state := t,
       sent := sent s @ map tms_cmd (tms_path 9 (current_state s) t)\<rparr>"
proof (induction t s rule: go_to_state_loop.induct)
  case (1 state s)
  show ?case
  proof (cases "current_state s = state")
    case True
    then have "go_to_state_loop state s = s"
      by (simp add: go_to_state_loop.simps [of state s] jtag_current_state_def)
    moreover from True have "s\<lparr>current_state := state\<rparr> = s"
      by simp
    ultimately show ?thesis
      using True by (simp add: tms_path_same)
  next
    case False
    then have "go_to_state_loop state s = go_to_state_loop state (go_step state s)"
      by (simp add: go_to_state_loop.simps [of state s] jtag_current_state_def)
    also have "\<dots> = (go_step state s)
        \<lparr>acks := acks (go_step state s) @ tms_path 9 (current_state (go_step state s)) state,
         current_state := state,
         sent := sent (go_step state s)
                   @ map tms_cmd (tms_path 9 (current_state (go_step state s)) state)\<rparr>"
      using False by (intro "1.IH") (simp add: jtag_current_state_def)
    finally show ?thesis
      using False by (simp add: go_step_eq tms_path_step [of "current_state s" state])
  qed
qed

lemma reset_five: "(tap_next True ^^ 5) c = STATE_TEST_LOGIC_RESET"
  by (cases c; simp add: eval_nat_numeral tap_next_1)

lemma jtag_state_ack_eq:
  "jtag_state_ack tms s =
     s\<lparr>acks := acks s @ [tms], current_state := tap_next tms (current_state s)\<rparr>"
  by (simp add: jtag_state_ack_def jtag_set_current_state_def jtag_current_state_def
      Let_def tap_next_def)

lemma ack_funpow:
  "(jtag_state_ack True ^^ n) s =
     s\<lparr>acks := acks s @ replicate n True,
       current_state := (tap_next True ^^ n) (current_state s)\<rparr>"
proof (induction n)
  case 0
  show ?case by simp
next
  case (Suc n)
  have "(jtag_state_ack True ^^ Suc n) s = jtag_state_ack True ((jtag_state_ack True ^^ n) s)"
    by simp
  also have "\<dots> = jtag_state_ack True
      (s\<lparr>acks := acks s @ replicate n True,
         current_state := (tap_next True ^^ n) (current_state s)\<rparr>)"
    by (simp only: Suc)
  also have "\<dots> = s\<lparr>acks := acks s @ replicate (Suc n) True,
         current_state := (tap_next True ^^ Suc n) (current_state s)\<rparr>"
    by (simp add: jtag_state_ack_eq replicate_append_same)
  finally show ?case .
qed

lemma go_to_reset_eq:
  "jtag_go_to_state STATE_TEST_LOGIC_RESET s =
     s\<lparr>acks := acks s @ replicate 5 True,
       current_state := STATE_TEST_LOGIC_RESET,
       sent := sent s @ [[MC_DATA_TMS OR MC_DATA_LSB OR MC_DATA_BITS, 4, 0x1F]]\<rparr>"
  by (simp add: jtag_go_to_state_def ack_funpow reset_five mpsse_xfer_def Let_def)

lemma go_to_other_eq:
  "t \<noteq> STATE_TEST_LOGIC_RESET \<Longrightarrow>
   jtag_go_to_state t s =
     s\<lparr>acks := acks s @ tms_path 9 (current_state s) t,
       current_state := t,
       sent := sent s @ map tms_cmd (tms_path 9 (current_state s) t)\<rparr>"
  by (simp add: jtag_go_to_state_def go_to_state_loop_eq)

lemma tms_wire_reset:
  "tms_wire [MC_DATA_TMS OR MC_DATA_LSB OR MC_DATA_BITS, 4, 0x1F] = replicate 5 True"
  by code_simp

section \<open>The shift transport: \<open>jtag_tap_shift\<close>\<close>

text \<open>
  What C leaves undefined is an error value of the model: a write past the end of
  \<open>data[1024]\<close>, a read past the end of the caller's input buffer, a write past the end
  of its output buffer (and, in the flash engine below, a \<open>memcpy\<close> past the end of
  \<open>buffer_tx\<close>). \<open>Verify_mismatch\<close> is the exit \<open>jtag_error(3)\<close> of the verify.
\<close>

datatype error = Data_overrun | Input_overrun | Output_overrun | Buffer_tx_overrun | Verify_mismatch

text \<open>
  \<open>jtag_pulse_clock_and_read_tdo\<close> stages one three-byte command at \<open>ptr\<close>: clock one
  bit in TMS mode and read TDO, with TDI in bit 7 and TMS in bit 0 of the data byte. It
  does not check the room left in \<open>data\<close>.
\<close>

definition jtag_pulse_clock_and_read_tdo :: "bool \<Rightarrow> bool \<Rightarrow> jtag \<Rightarrow> error + jtag" where
  "jtag_pulse_clock_and_read_tdo tms tdi s =
     (if 1024 < ptr s + 3 then Inl Data_overrun
      else Inr (s\<lparr>data := (data s)
                  [ptr s := MC_DATA_TMS OR MC_DATA_IN OR MC_DATA_LSB OR MC_DATA_BITS,
                   ptr s + 1 := 0,
                   ptr s + 2 := (if tdi then 0x80 else 0) OR (if tms then 0x01 else 0)],
                ptr := ptr s + 3,
                rx_cnt := rx_cnt s + 1\<rparr>))"

text \<open>
  The inner loop \<open>for (int j = 0; j < 8 && bit_count-- > 0; ++j)\<close>: the counter is
  tested and then decremented whenever \<open>j < 8\<close>, also by the test that ends the loop.
\<close>

function shift_byte ::
  "nat \<Rightarrow> 32 word \<Rightarrow> 8 word \<Rightarrow> bool \<Rightarrow> jtag \<Rightarrow> error + (32 word \<times> jtag)" where
  "shift_byte j bit_count byte_out must_end s =
     (if j < 8 then
        (if 0 < bit_count then
           (let bit_count' = bit_count - 1;
                tms = (bit_count' = 0 \<and> must_end);
                s1 = (if tms then jtag_state_ack True s else s)
            in case jtag_pulse_clock_and_read_tdo tms (byte_out AND 1 \<noteq> 0) s1 of
                 Inl e \<Rightarrow> Inl e
               | Inr s2 \<Rightarrow> shift_byte (j + 1) bit_count' (drop_bit 1 byte_out) must_end s2)
         else Inr (bit_count - 1, s))
      else Inr (bit_count, s))"
  by pat_completeness auto
termination
  by (relation "measure (\<lambda>(j, bit_count, byte_out, must_end, s). 8 - j)") auto

declare shift_byte.simps [simp del]

text \<open>The outer loop \<open>for (uint32_t i = 0; i < byte_count; ++i)\<close>.\<close>

function shift_bytes ::
  "8 word list \<Rightarrow> bool \<Rightarrow> nat \<Rightarrow> nat \<Rightarrow> 32 word \<Rightarrow> jtag \<Rightarrow> error + (32 word \<times> jtag)" where
  "shift_bytes input_data must_end byte_count i bit_count s =
     (if i < byte_count then
        (if length input_data \<le> i then Inl Input_overrun
         else case shift_byte 0 bit_count (input_data ! i) must_end s of
                Inl e \<Rightarrow> Inl e
              | Inr (bit_count', s') \<Rightarrow>
                  shift_bytes input_data must_end byte_count (i + 1) bit_count' s')
      else Inr (bit_count, s))"
  by pat_completeness auto
termination
  by (relation "measure (\<lambda>(input_data, must_end, byte_count, i, bit_count, s). byte_count - i)")
     auto

declare shift_bytes.simps [simp del]

text \<open>
  The last loop, \<open>for (int i = 0; i < rx_cnt/8; i++) output_data[i] = data[7+i*8]\<close>.
\<close>

function copy_tdo :: "8 word list \<Rightarrow> 8 word list \<Rightarrow> nat \<Rightarrow> nat \<Rightarrow> error + 8 word list" where
  "copy_tdo data' output_data n i =
     (if i < n then
        (if length output_data \<le> i then Inl Output_overrun
         else copy_tdo data' (output_data[i := data' ! (7 + i * 8)]) n (i + 1))
      else Inr output_data)"
  by pat_completeness auto
termination
  by (relation "measure (\<lambda>(data', output_data, n, i). n - i)") auto

declare copy_tdo.simps [simp del]

text \<open>
  \<open>jtag_tap_shift\<close>. The caller's buffers are lists; a caller that passes the same
  array as input and output (as \<open>xfer_spi\<close> does) passes the same list twice, which is
  faithful because the input is read completely before the output is written. The length
  passed to \<open>mpsse_xfer\<close> is converted to \<open>uint16_t\<close>, the count \<open>rx_cnt\<close> is 8 bits
  wide.
\<close>

definition jtag_tap_shift ::
  "8 word list \<Rightarrow> 8 word list \<Rightarrow> 32 word \<Rightarrow> bool \<Rightarrow> jtag \<Rightarrow> error + (8 word list \<times> jtag)" where
  "jtag_tap_shift input_data output_data data_bits must_end s =
     (let bit_count = data_bits;
          byte_count = (data_bits + 7) div 8;
          s0 = s\<lparr>rx_cnt := 0, ptr := 0\<rparr>
      in case shift_bytes input_data must_end (unat byte_count) 0 bit_count s0 of
           Inl e \<Rightarrow> Inl e
         | Inr (bit_count', s1) \<Rightarrow>
             (let (d, s2) = mpsse_xfer (data s1) (ptr s1 mod 65536) (unat (rx_cnt s1)) s1;
                  s3 = s2\<lparr>data := d\<rparr>
              in case copy_tdo (data s3) output_data (unat (rx_cnt s3) div 8) 0 of
                   Inl e \<Rightarrow> Inl e
                 | Inr out \<Rightarrow> Inr (out, s3)))"

subsection \<open>The loops as a sequence of pulses\<close>

text \<open>
  For reasoning, the two loops are read as one sequence of pulses, each a pair of the TMS
  and the TDI level: \<open>pulse_cmd\<close> is the command staged for a pulse, \<open>run_pulses\<close>
  does for a list of pulses what the loop body does for each bit.
\<close>

definition pulse_cmd :: "bool \<times> bool \<Rightarrow> 8 word list" where
  "pulse_cmd p =
     [MC_DATA_TMS OR MC_DATA_IN OR MC_DATA_LSB OR MC_DATA_BITS, 0,
      (if snd p then 0x80 else 0) OR (if fst p then 0x01 else 0)]"

fun run_pulses :: "(bool \<times> bool) list \<Rightarrow> jtag \<Rightarrow> error + jtag" where
  "run_pulses [] s = Inr s"
| "run_pulses (p # ps) s =
     (case jtag_pulse_clock_and_read_tdo (fst p) (snd p)
             (if fst p then jtag_state_ack True s else s) of
        Inl e \<Rightarrow> Inl e
      | Inr s' \<Rightarrow> run_pulses ps s')"

lemma run_pulses_append:
  "run_pulses (a @ b) s = (case run_pulses a s of Inl e \<Rightarrow> Inl e | Inr s' \<Rightarrow> run_pulses b s')"
  by (induction a arbitrary: s) (auto split: sum.splits)

lemma update3_append:
  "(xs @ [x, y, z] @ ys)[length xs := a, Suc (length xs) := b, Suc (Suc (length xs)) := c]
     = xs @ [a, b, c] @ ys"
  by (simp add: list_update_append)

lemma update3:
  assumes "p + 3 \<le> length d"
  shows "d[p := a, Suc p := b, Suc (Suc p) := c] = take p d @ [a, b, c] @ drop (p + 3) d"
proof -
  have d: "d = take p d @ [d ! p, d ! Suc p, d ! Suc (Suc p)] @ drop (p + 3) d"
    using assms by (simp add: numeral_3_eq_3 Cons_nth_drop_Suc)
  have lp: "length (take p d) = p" using assms by simp
  show ?thesis
    using update3_append [of "take p d" "d ! p" "d ! Suc p" "d ! Suc (Suc p)" "drop (p + 3) d" a b c]
    unfolding lp d [symmetric] .
qed

lemma pulse_eq:
  "ptr s + 3 \<le> 1024 \<Longrightarrow> length (data s) = 1024 \<Longrightarrow>
   jtag_pulse_clock_and_read_tdo tms tdi s =
     Inr (s\<lparr>data := take (ptr s) (data s) @ pulse_cmd (tms, tdi) @ drop (ptr s + 3) (data s),
            ptr := ptr s + 3, rx_cnt := rx_cnt s + 1\<rparr>)"
  by (simp add: jtag_pulse_clock_and_read_tdo_def update3 pulse_cmd_def)

lemma pulse_overrun:
  "1024 < ptr s + 3 \<Longrightarrow> jtag_pulse_clock_and_read_tdo tms tdi s = Inl Data_overrun"
  by (simp add: jtag_pulse_clock_and_read_tdo_def)

definition tms_count :: "(bool \<times> bool) list \<Rightarrow> nat" where
  "tms_count ps = length (filter fst ps)"

lemma run_pulses_overrun:
  "ptr s \<le> 1024 \<Longrightarrow> 1024 < ptr s + 3 * length ps \<Longrightarrow> run_pulses ps s = Inl Data_overrun"
proof (induction ps arbitrary: s)
  case Nil
  then show ?case by simp
next
  case (Cons p ps)
  let ?s = "if fst p then jtag_state_ack True s else s"
  have p: "ptr ?s = ptr s" "length (data ?s) = length (data s)"
    by (simp_all add: jtag_state_ack_eq)
  show ?case
  proof (cases "1024 < ptr s + 3")
    case True
    then have "jtag_pulse_clock_and_read_tdo (fst p) (snd p) ?s = Inl Data_overrun"
      by (intro pulse_overrun) (simp add: p)
    then show ?thesis by simp
  next
    case False
    then have "jtag_pulse_clock_and_read_tdo (fst p) (snd p) ?s \<noteq> Inl Data_overrun"
      by (simp add: jtag_pulse_clock_and_read_tdo_def p)
    then obtain s' where s': "jtag_pulse_clock_and_read_tdo (fst p) (snd p) ?s = Inr s'"
      "ptr s' = ptr s + 3"
      using False by (auto simp: jtag_pulse_clock_and_read_tdo_def p)
    have "run_pulses ps s' = Inl Data_overrun"
      using Cons.prems False by (intro Cons.IH) (simp_all add: s')
    then show ?thesis by (simp add: s')
  qed
qed

lemma run_pulses_eq:
  "ptr s + 3 * length ps \<le> 1024 \<Longrightarrow> length (data s) = 1024 \<Longrightarrow>
   run_pulses ps s =
     Inr (s\<lparr>data := take (ptr s) (data s) @ concat (map pulse_cmd ps)
                       @ drop (ptr s + 3 * length ps) (data s),
            ptr := ptr s + 3 * length ps,
            rx_cnt := rx_cnt s + of_nat (length ps),
            acks := acks s @ replicate (tms_count ps) True,
            current_state := (tap_next True ^^ tms_count ps) (current_state s)\<rparr>)"
proof (induction ps arbitrary: s)
  case Nil
  then show ?case by (simp add: tms_count_def)
next
  case (Cons p ps)
  let ?s = "if fst p then jtag_state_ack True s else s"
  have p: "ptr ?s = ptr s" "data ?s = data s" "rx_cnt ?s = rx_cnt s" "sent ?s = sent s"
    "rx ?s = rx s"
    by (simp_all add: jtag_state_ack_eq)
  define s' where "s' = ?s\<lparr>data := take (ptr s) (data s) @ pulse_cmd (fst p, snd p)
      @ drop (ptr s + 3) (data s), ptr := ptr s + 3, rx_cnt := rx_cnt s + 1\<rparr>"
  have step: "jtag_pulse_clock_and_read_tdo (fst p) (snd p) ?s = Inr s'"
    using Cons.prems unfolding s'_def by (subst pulse_eq) (simp_all add: p)
  have len: "length (pulse_cmd q) = 3" for q by (simp add: pulse_cmd_def)
  have f: "ptr s' = ptr s + 3" "rx_cnt s' = rx_cnt s + 1" "acks s' = acks ?s"
    "current_state s' = current_state ?s"
    by (simp_all add: s'_def)
  have d1: "take (ptr s + 3) (data s') = take (ptr s) (data s) @ pulse_cmd p"
    using Cons.prems by (simp add: s'_def len)
  have d2: "drop (ptr s + 3 + 3 * length ps) (data s')
      = drop (ptr s + 3 * length (p # ps)) (data s)"
    using Cons.prems by (simp add: s'_def len algebra_simps)
  have ih: "run_pulses ps s' = Inr (s'\<lparr>data := take (ptr s') (data s') @ concat (map pulse_cmd ps)
                       @ drop (ptr s' + 3 * length ps) (data s'),
            ptr := ptr s' + 3 * length ps,
            rx_cnt := rx_cnt s' + of_nat (length ps),
            acks := acks s' @ replicate (tms_count ps) True,
            current_state := (tap_next True ^^ tms_count ps) (current_state s')\<rparr>)"
    using Cons.prems by (intro Cons.IH) (simp_all add: s'_def len)
  show ?case
    unfolding run_pulses.simps step sum.case ih f d1 d2
    by (cases "fst p")
       (simp_all add: s'_def jtag_state_ack_eq tms_count_def funpow_Suc_right
          add.assoc del: funpow.simps)
qed

definition byte_pulses :: "nat \<Rightarrow> 32 word \<Rightarrow> 8 word \<Rightarrow> bool \<Rightarrow> (bool \<times> bool) list" where
  "byte_pulses j bit_count byte_out must_end =
     map (\<lambda>k. (must_end \<and> unat bit_count = Suc k, bit byte_out k))
       [0..<min (8 - j) (unat bit_count)]"

definition bit_count_after :: "nat \<Rightarrow> 32 word \<Rightarrow> 32 word" where
  "bit_count_after j bit_count =
     (if 8 - j \<le> unat bit_count then bit_count - of_nat (8 - j) else 0 - 1)"

lemma unat_pred: "0 < (w::32 word) \<Longrightarrow> unat (w - 1) = unat w - 1"
  by (simp add: unat_minus_one)

lemma pred_eq_0: "w - 1 = 0 \<longleftrightarrow> unat (w::32 word) = Suc 0"
  by (metis One_nat_def diff_eq_diff_eq diff_numeral_special(9) unsigned_1 word_eq_iff_unsigned)

lemma unat_one_iff: "unat (w::32 word) = Suc 0 \<longleftrightarrow> w = 1"
  using pred_eq_0 [of w] by simp

lemma and_1_bit: "(b :: 8 word) AND 1 \<noteq> 0 \<longleftrightarrow> bit b 0"
  by (simp add: bit_iff_and_push_bit_not_eq_0)

lemma upt_0_step: "0 < n \<Longrightarrow> [0..<n] = 0 # map Suc [0..<n - 1]"
  by (cases n) (simp_all add: upt_conv_Cons map_Suc_upt del: upt_Suc)

lemma word_pos_unat: "0 < (w::32 word) \<longleftrightarrow> 0 < unat w"
  by (simp add: word_less_nat_alt)

lemma byte_pulses_step:
  assumes "j < 8" and "0 < bit_count"
  shows "byte_pulses j bit_count byte_out must_end =
           (bit_count - 1 = 0 \<and> must_end, byte_out AND 1 \<noteq> 0)
             # byte_pulses (j + 1) (bit_count - 1) (drop_bit 1 byte_out) must_end"
proof -
  have u: "0 < unat bit_count" using assms(2) by (simp add: word_pos_unat)
  have m: "min (8 - (j + 1)) (unat (bit_count - 1)) = min (8 - j) (unat bit_count) - 1"
    using assms u by (simp add: unat_pred)
  have pos: "0 < min (8 - j) (unat bit_count)" using assms u by simp
  have e: "(unat (bit_count - 1) = Suc k) = (unat bit_count = Suc (Suc k))" for k
    using assms u by (auto simp: unat_pred)
  show ?thesis
    unfolding byte_pulses_def m upt_0_step [OF pos]
    by (auto simp: pred_eq_0 and_1_bit bit_drop_bit_eq e unat_one_iff)
qed

lemma byte_pulses_done:
  "\<not> j < 8 \<or> \<not> 0 < bit_count \<Longrightarrow> byte_pulses j bit_count byte_out must_end = []"
  by (auto simp: byte_pulses_def word_pos_unat)

lemma bit_count_after_step:
  assumes "j < 8" and "0 < bit_count"
  shows "bit_count_after (j + 1) (bit_count - 1) = bit_count_after j bit_count"
proof -
  have u: "0 < unat bit_count" using assms(2) by (simp add: word_pos_unat)
  have "(8 - (j + 1) \<le> unat (bit_count - 1)) = (8 - j \<le> unat bit_count)"
    using assms u by (auto simp: unat_pred)
  moreover have "bit_count - 1 - of_nat (8 - (j + 1)) = bit_count - of_nat (8 - j)"
  proof -
    have "8 - j = Suc (8 - (j + 1))" using assms by simp
    then show ?thesis by (simp only: of_nat_Suc) simp
  qed
  ultimately show ?thesis by (simp add: bit_count_after_def)
qed

lemma shift_byte_run:
  "shift_byte j bit_count byte_out must_end s =
     (case run_pulses (byte_pulses j bit_count byte_out must_end) s of
        Inl e \<Rightarrow> Inl e
      | Inr s' \<Rightarrow> Inr (bit_count_after j bit_count, s'))"
proof (induction j bit_count byte_out must_end s rule: shift_byte.induct)
  case (1 j bit_count byte_out must_end s)
  show ?case
  proof (cases "j < 8 \<and> 0 < bit_count")
    case False
    then have "byte_pulses j bit_count byte_out must_end = []"
      by (intro byte_pulses_done) simp
    moreover have "shift_byte j bit_count byte_out must_end s
        = Inr (bit_count_after j bit_count, s)"
      using False
      by (subst shift_byte.simps) (auto simp: bit_count_after_def word_pos_unat unat_eq_zero)
    ultimately show ?thesis by simp
  next
    case True
    let ?tms = "bit_count - 1 = 0 \<and> must_end"
    let ?s1 = "if ?tms then jtag_state_ack True s else s"
    have bp: "byte_pulses j bit_count byte_out must_end =
        (?tms, byte_out AND 1 \<noteq> 0)
          # byte_pulses (j + 1) (bit_count - 1) (drop_bit 1 byte_out) must_end"
      using True by (intro byte_pulses_step) simp_all
    have ba: "bit_count_after (j + 1) (bit_count - 1) = bit_count_after j bit_count"
      using True by (intro bit_count_after_step) simp_all
    have unf: "shift_byte j bit_count byte_out must_end s =
        (case jtag_pulse_clock_and_read_tdo ?tms (byte_out AND 1 \<noteq> 0) ?s1 of
           Inl e \<Rightarrow> Inl e
         | Inr s2 \<Rightarrow> shift_byte (j + 1) (bit_count - 1) (drop_bit 1 byte_out) must_end s2)"
      using True by (subst shift_byte.simps) (simp add: Let_def)
    show ?thesis
    proof (cases "jtag_pulse_clock_and_read_tdo ?tms (byte_out AND 1 \<noteq> 0) ?s1")
      case (Inl e)
      then show ?thesis
        unfolding unf bp by simp
    next
      case (Inr s2)
      have ih: "shift_byte (j + 1) (bit_count - 1) (drop_bit 1 byte_out) must_end s2 =
          (case run_pulses (byte_pulses (j + 1) (bit_count - 1) (drop_bit 1 byte_out) must_end) s2 of
             Inl e \<Rightarrow> Inl e
           | Inr s' \<Rightarrow> Inr (bit_count_after (j + 1) (bit_count - 1), s'))"
        using True Inr by (intro "1.IH") simp_all
      show ?thesis
        unfolding unf bp using Inr ih [unfolded ba] by simp
    qed
  qed
qed

definition pulse_at :: "8 word list \<Rightarrow> bool \<Rightarrow> nat \<Rightarrow> nat \<Rightarrow> bool \<times> bool" where
  "pulse_at input_data must_end N k =
     (must_end \<and> Suc k = N, bit (input_data ! (k div 8)) (k mod 8))"

definition shift_pulses :: "8 word list \<Rightarrow> bool \<Rightarrow> nat \<Rightarrow> (bool \<times> bool) list" where
  "shift_pulses input_data must_end N = map (pulse_at input_data must_end N) [0..<N]"

lemma byte_pulses_at:
  assumes "8 * i < N" and "unat bit_count = N - 8 * i"
  shows "byte_pulses 0 bit_count (input_data ! i) must_end =
           map (pulse_at input_data must_end N) [8 * i..<8 * i + min 8 (N - 8 * i)]"
proof -
  have "[8 * i..<8 * i + min 8 (N - 8 * i)] = map (\<lambda>k. k + 8 * i) [0..<min 8 (N - 8 * i)]"
    by (simp add: map_add_upt add.commute)
  moreover have "pulse_at input_data must_end N (k + 8 * i) =
      (must_end \<and> unat bit_count = Suc k, bit (input_data ! i) k)" if "k < 8" for k
    using that assms by (auto simp: pulse_at_def)
  ultimately show ?thesis
    by (simp add: byte_pulses_def assms(2) o_def)
qed

lemma shift_bytes_run:
  assumes "N < 2 ^ 32" and "byte_count = (N + 7) div 8" and "byte_count \<le> length input_data"
  shows "i \<le> byte_count \<Longrightarrow> (i < byte_count \<longrightarrow> bit_count = of_nat (N - 8 * i)) \<Longrightarrow>
         map_sum id snd (shift_bytes input_data must_end byte_count i bit_count s) =
           run_pulses (map (pulse_at input_data must_end N) [8 * i..<N]) s"
proof (induction "byte_count - i" arbitrary: i bit_count s)
  case 0
  then have "i = byte_count" by simp
  then have "N \<le> 8 * i" using assms(2) by simp
  then have e: "[8 * i..<N] = []" by simp
  have "shift_bytes input_data must_end byte_count i bit_count s = Inr (bit_count, s)"
    using \<open>i = byte_count\<close> by (subst shift_bytes.simps) simp
  then show ?case
    unfolding e by simp
next
  case (Suc d)
  then have lt: "i < byte_count" by simp
  then have bc: "bit_count = of_nat (N - 8 * i)" using Suc.prems by simp
  have i8: "8 * i < N" using lt assms(2) by simp
  have u: "unat bit_count = N - 8 * i"
    unfolding bc using assms(1) by (simp add: unat_of_nat take_bit_nat_eq_self)
  define n where "n = min 8 (N - 8 * i)"
  define ps where "ps = map (pulse_at input_data must_end N) [8 * i..<8 * i + n]"
  have bp: "byte_pulses 0 bit_count (input_data ! i) must_end = ps"
    unfolding ps_def n_def using i8 u by (rule byte_pulses_at)
  have rest: "[8 * i + n..<N] = [8 * (i + 1)..<N]"
    unfolding n_def by (cases "8 \<le> N - 8 * i") (simp_all add: add.commute)
  have le: "8 * i + n \<le> N" using i8 by (simp add: n_def)
  have "[8 * i..<(8 * i + n) + (N - (8 * i + n))] =
      [8 * i..<8 * i + n] @ [8 * i + n..<(8 * i + n) + (N - (8 * i + n))]"
    by (rule upt_add_eq_append) simp
  then have split: "[8 * i..<N] = [8 * i..<8 * i + n] @ [8 * (i + 1)..<N]"
    unfolding rest [symmetric] using le by simp
  have nxt: "Suc i < byte_count \<longrightarrow> bit_count_after 0 bit_count = of_nat (N - 8 * Suc i)"
  proof
    assume "Suc i < byte_count"
    then have "8 \<le> N - 8 * i" using assms(2) by simp
    then have "bit_count_after 0 bit_count = bit_count - 8"
      by (simp add: bit_count_after_def u)
    also have "\<dots> = of_nat (N - 8 * i - 8)"
      unfolding bc using \<open>8 \<le> N - 8 * i\<close> by (simp add: of_nat_diff)
    also have "N - 8 * i - 8 = N - 8 * Suc i" by simp
    finally show "bit_count_after 0 bit_count = of_nat (N - 8 * Suc i)" .
  qed
  have unf: "shift_bytes input_data must_end byte_count i bit_count s =
      (case run_pulses ps s of
         Inl e \<Rightarrow> Inl e
       | Inr s' \<Rightarrow> shift_bytes input_data must_end byte_count (i + 1)
                    (bit_count_after 0 bit_count) s')"
    using lt assms(3)
    by (subst shift_bytes.simps) (simp add: shift_byte_run bp split: sum.splits)
  show ?case
  proof (cases "run_pulses ps s")
    case (Inl e)
    then show ?thesis
      unfolding unf split map_append run_pulses_append ps_def [symmetric] by simp
  next
    case (Inr s')
    have "map_sum id snd (shift_bytes input_data must_end byte_count (Suc i)
              (bit_count_after 0 bit_count) s') =
          run_pulses (map (pulse_at input_data must_end N) [8 * Suc i..<N]) s'"
      using Suc.hyps lt nxt by (intro Suc.hyps(1)) simp_all
    then show ?thesis
      unfolding unf split map_append run_pulses_append ps_def [symmetric] using Inr by simp
  qed
qed

lemma copy_tdo_run:
  "i \<le> n \<Longrightarrow> n \<le> length output_data \<Longrightarrow>
   copy_tdo d output_data n i =
     Inr (take i output_data @ map (\<lambda>k. d ! (7 + k * 8)) [i..<n] @ drop n output_data)"
proof (induction "n - i" arbitrary: i output_data)
  case 0
  then show ?case by (subst copy_tdo.simps) simp
next
  case (Suc m)
  then have lt: "i < n" by simp
  have "copy_tdo d output_data n i = copy_tdo d (output_data[i := d ! (7 + i * 8)]) n (i + 1)"
    using lt Suc.prems by (subst copy_tdo.simps) simp
  also have "\<dots> = Inr (take (i + 1) (output_data[i := d ! (7 + i * 8)])
      @ map (\<lambda>k. d ! (7 + k * 8)) [i + 1..<n] @ drop n (output_data[i := d ! (7 + i * 8)]))"
    using Suc.hyps Suc.prems lt by (intro Suc.hyps(1)) simp_all
  also have "take (i + 1) (output_data[i := d ! (7 + i * 8)]) = take i output_data @ [d ! (7 + i * 8)]"
    using lt Suc.prems by (simp add: take_Suc_conv_app_nth)
  also have "drop n (output_data[i := d ! (7 + i * 8)]) = drop n output_data"
    using lt by simp
  finally show ?case
    using lt by (simp add: upt_conv_Cons)
qed

lemma copy_tdo_overrun:
  "i \<le> n \<Longrightarrow> length output_data < n \<Longrightarrow> i \<le> length output_data \<Longrightarrow>
   copy_tdo d output_data n i = Inl Output_overrun"
proof (induction "length output_data - i" arbitrary: i output_data)
  case 0
  then show ?case by (subst copy_tdo.simps) simp
next
  case (Suc m)
  then show ?case by (subst copy_tdo.simps) simp
qed

lemma tms_wire_pulses: "tms_wire (concat (map pulse_cmd ps)) = map fst ps"
  by (induction ps)
     (simp_all add: pulse_cmd_def MC_DATA_TMS_def MC_DATA_IN_def MC_DATA_LSB_def
        MC_DATA_BITS_def bit_simps)

lemma tdi_wire_pulses: "tdi_wire (concat (map pulse_cmd ps)) = map snd ps"
  by (induction ps)
     (simp_all add: pulse_cmd_def MC_DATA_TMS_def MC_DATA_IN_def MC_DATA_LSB_def
        MC_DATA_BITS_def bit_simps)

lemma length_pulses: "length (concat (map pulse_cmd ps)) = 3 * length ps"
  by (induction ps) (simp_all add: pulse_cmd_def)

lemma tms_of_shift_pulses:
  "map fst (shift_pulses input_data must_end N) =
     (if must_end \<and> 0 < N then replicate (N - 1) False @ [True] else replicate N False)"
proof (cases "must_end \<and> 0 < N")
  case False
  then show ?thesis
    by (auto simp: shift_pulses_def pulse_at_def o_def map_replicate_const [symmetric]
        simp del: map_replicate_const replicate_eq_replicate)
       (simp add: map_replicate_const)
next
  case True
  then obtain m where N: "N = Suc m" by (cases N) auto
  have "map (\<lambda>k. must_end \<and> Suc k = Suc m) [0..<m] = map (\<lambda>k. False) [0..<m]"
    by (rule map_cong) auto
  then show ?thesis
    using True by (simp add: shift_pulses_def pulse_at_def o_def N map_replicate_const)
qed

lemma tms_count_shift_pulses:
  "tms_count (shift_pulses input_data must_end N) = (if must_end \<and> 0 < N then 1 else 0)"
proof -
  have c: "tms_count ps = length (filter (\<lambda>b. b) (map fst ps))" for ps :: "(bool \<times> bool) list"
    by (induction ps) (simp_all add: tms_count_def)
  show ?thesis
    unfolding c tms_of_shift_pulses by simp
qed

lemma byte_count_unat:
  assumes "unat (data_bits :: 32 word) + 7 < 2 ^ 32"
  shows "unat ((data_bits + 7) div 8) = (unat data_bits + 7) div 8"
proof -
  have "unat (data_bits + 7) = unat data_bits + unat (7 :: 32 word)"
    using assms by (intro iffD1 [OF unat_add_lem]) simp
  then show ?thesis by (simp add: unat_div)
qed

lemma shift_loop_run:
  assumes "unat data_bits + 7 < 2 ^ 32"
    and "(unat data_bits + 7) div 8 \<le> length input_data"
  shows "map_sum id snd
           (shift_bytes input_data must_end (unat ((data_bits + 7) div 8)) 0 data_bits s) =
         run_pulses (shift_pulses input_data must_end (unat data_bits)) s"
proof -
  have "map_sum id snd
           (shift_bytes input_data must_end ((unat data_bits + 7) div 8) 0 data_bits s) =
         run_pulses (map (pulse_at input_data must_end (unat data_bits)) [8 * 0..<unat data_bits]) s"
    using assms by (intro shift_bytes_run) simp_all
  then show ?thesis
    by (simp add: byte_count_unat [OF assms(1)] shift_pulses_def)
qed

lemma tap_shift_overrun:
  assumes "1024 < 3 * unat data_bits" and "unat data_bits + 7 < 2 ^ 32"
    and "(unat data_bits + 7) div 8 \<le> length input_data"
  shows "jtag_tap_shift input_data output_data data_bits must_end s = Inl Data_overrun"
proof -
  let ?s0 = "s\<lparr>rx_cnt := 0, ptr := 0\<rparr>"
  have "run_pulses (shift_pulses input_data must_end (unat data_bits)) ?s0 = Inl Data_overrun"
    using assms(1) by (intro run_pulses_overrun) (simp_all add: shift_pulses_def)
  then have "map_sum id snd
      (shift_bytes input_data must_end (unat ((data_bits + 7) div 8)) 0 data_bits ?s0)
        = Inl Data_overrun"
    by (simp add: shift_loop_run [OF assms(2,3)])
  then have "shift_bytes input_data must_end (unat ((data_bits + 7) div 8)) 0 data_bits ?s0
      = Inl Data_overrun"
    by (cases "shift_bytes input_data must_end (unat ((data_bits + 7) div 8)) 0 data_bits ?s0")
       simp_all
  then show ?thesis
    by (simp add: jtag_tap_shift_def Let_def)
qed

lemma tap_shift_run:
  assumes "3 * unat data_bits \<le> 1024"
    and "(unat data_bits + 7) div 8 \<le> length input_data"
    and "length (data s) = 1024"
    and "(unat data_bits mod 256) div 8 \<le> length output_data"
  shows "jtag_tap_shift input_data output_data data_bits must_end s =
     Inr (map (\<lambda>k. rx s (7 + k * 8)) [0..<(unat data_bits mod 256) div 8]
            @ drop ((unat data_bits mod 256) div 8) output_data,
          s\<lparr>data := map (rx s) [0..<unat data_bits mod 256]
                     @ drop (unat data_bits mod 256)
                         (concat (map pulse_cmd (shift_pulses input_data must_end (unat data_bits)))
                          @ drop (3 * unat data_bits) (data s)),
            ptr := 3 * unat data_bits,
            rx_cnt := of_nat (unat data_bits),
            acks := acks s @ replicate (tms_count (shift_pulses input_data must_end (unat data_bits))) True,
            current_state := (tap_next True ^^ tms_count (shift_pulses input_data must_end (unat data_bits)))
                               (current_state s),
            sent := sent s @ (if unat data_bits = 0 then []
                              else [concat (map pulse_cmd (shift_pulses input_data must_end (unat data_bits)))]),
            rx := (if unat data_bits mod 256 = 0 then rx s
                   else (\<lambda>k. rx s (k + unat data_bits mod 256)))\<rparr>)"
proof -
  define N where "N = unat data_bits"
  define ps where "ps = shift_pulses input_data must_end N"
  define r where "r = N mod 256"
  define cmds where "cmds = concat (map pulse_cmd ps)"
  let ?s0 = "s\<lparr>rx_cnt := 0, ptr := 0\<rparr>"
  have lps: "length ps = N" by (simp add: ps_def shift_pulses_def)
  have lc: "length cmds = 3 * N" by (simp add: cmds_def length_pulses lps)
  have N7: "N + 7 < 2 ^ 32" using assms(1) by (simp add: N_def)
  define s1 where "s1 = ?s0\<lparr>data := cmds @ drop (3 * N) (data s),
            ptr := 3 * N,
            rx_cnt := of_nat N,
            acks := acks s @ replicate (tms_count ps) True,
            current_state := (tap_next True ^^ tms_count ps) (current_state s)\<rparr>"
  have "run_pulses ps ?s0 = Inr s1"
    using assms(1,3) by (subst run_pulses_eq) (simp_all add: lps N_def s1_def cmds_def)
  then have "map_sum id snd
      (shift_bytes input_data must_end (unat ((data_bits + 7) div 8)) 0 data_bits ?s0) = Inr s1"
    using shift_loop_run [of data_bits input_data must_end ?s0] N7 assms(2)
    by (simp add: N_def ps_def)
  then obtain bc where loop:
    "shift_bytes input_data must_end (unat ((data_bits + 7) div 8)) 0 data_bits ?s0 = Inr (bc, s1)"
    by (cases "shift_bytes input_data must_end (unat ((data_bits + 7) div 8)) 0 data_bits ?s0")
       auto
  have f1: "data s1 = cmds @ drop (3 * N) (data s)" "ptr s1 = 3 * N" "rx_cnt s1 = of_nat N"
    by (simp_all add: s1_def)
  have ur: "unat (of_nat N :: 8 word) = r"
    by (simp add: unat_of_nat r_def)
  have p16: "3 * N mod 65536 = 3 * N" using assms(1) by (simp add: N_def)
  define d where "d = map (rx s) [0..<r] @ drop r (cmds @ drop (3 * N) (data s))"
  have tk: "take (3 * N) (cmds @ drop (3 * N) (data s)) = cmds"
    by (simp add: lc)
  have rx_s1: "rx s1 = rx s" "sent s1 = sent s" by (simp_all add: s1_def)
  have xfer: "mpsse_xfer (data s1) (ptr s1 mod 65536) (unat (rx_cnt s1)) s1 =
      (d, s1\<lparr>sent := sent s @ (if N = 0 then [] else [cmds]),
             rx := (if r = 0 then rx s else (\<lambda>k. rx s (k + r)))\<rparr>)"
    unfolding f1 ur p16 mpsse_xfer_def Let_def
    by (auto simp: tk lc rx_s1(2) rx_s1(1) [symmetric] d_def)
  have dn: "d ! (7 + k * 8) = rx s (7 + k * 8)" if "k < r div 8" for k
  proof -
    have "7 + k * 8 < r" using that by simp
    then show ?thesis by (simp add: d_def nth_append)
  qed
  have cp: "copy_tdo d output_data (r div 8) 0 =
      Inr (map (\<lambda>k. rx s (7 + k * 8)) [0..<r div 8] @ drop (r div 8) output_data)"
  proof -
    have "map (\<lambda>k. d ! (7 + k * 8)) [0..<r div 8] = map (\<lambda>k. rx s (7 + k * 8)) [0..<r div 8]"
      by (rule map_cong) (simp_all add: dn)
    then show ?thesis
      using assms(4) by (subst copy_tdo_run) (simp_all add: r_def N_def)
  qed
  define s3 where "s3 = s1\<lparr>sent := sent s @ (if N = 0 then [] else [cmds]),
             rx := (if r = 0 then rx s else (\<lambda>k. rx s (k + r))), data := d\<rparr>"
  have f3: "data s3 = d" "unat (rx_cnt s3) = r"
    by (simp_all add: s3_def s1_def ur)
  have main: "jtag_tap_shift input_data output_data data_bits must_end s =
      Inr (map (\<lambda>k. rx s (7 + k * 8)) [0..<r div 8] @ drop (r div 8) output_data, s3)"
    unfolding jtag_tap_shift_def Let_def loop sum.case prod.case xfer s3_def [symmetric] f3 cp
    by simp
  show ?thesis
    unfolding main
    unfolding N_def [symmetric] ps_def [symmetric] r_def [symmetric] cmds_def [symmetric]
    by (simp add: s3_def s1_def d_def)
qed

subsection \<open>The bytes the device returns\<close>

text \<open>
  Modelled from the spec: the FTDI device is not part of the repository. As the comment
  in \<open>jtag_tap_shift\<close> says, the byte returned for a one-bit read is the content of an
  internal shift register, into which each sampled TDO bit enters at bit 7 while the
  earlier bits move down. \<open>ftdi_reply r0 tdo k\<close> is the byte returned for bit number
  \<open>k\<close> of a shift that samples the bits \<open>tdo\<close>, the register holding \<open>r0\<close> before.
  \<open>tdo_byte tdo i\<close> is the byte number \<open>i\<close> of the captured bits, least significant
  bit first.
\<close>

definition ftdi_shift_in :: "8 word \<Rightarrow> bool \<Rightarrow> 8 word" where
  "ftdi_shift_in r b = drop_bit 1 r OR (if b then 0x80 else 0)"

definition ftdi_reply :: "8 word \<Rightarrow> bool list \<Rightarrow> nat \<Rightarrow> 8 word" where
  "ftdi_reply r0 tdo k = foldl ftdi_shift_in r0 (take (Suc k) tdo)"

definition tdo_byte :: "bool list \<Rightarrow> nat \<Rightarrow> 8 word" where
  "tdo_byte tdo i = horner_sum of_bool 2 (take 8 (drop (8 * i) tdo))"

lemma bit_0x80: "bit (0x80 :: 8 word) j \<longleftrightarrow> j = 7"
proof -
  have "(0x80 :: 8 word) = 2 ^ 7" by simp
  then show ?thesis by (simp only: bit_exp_iff) auto
qed

lemma bit_8: "\<not> bit (r :: 8 word) 8"
  using bit_imp_le_length [of r 8] by auto

lemma bit_shift_in:
  "j < 8 \<Longrightarrow> bit (ftdi_shift_in r b) j = (if j = 7 then b else bit r (Suc j))"
  using bit_0x80 [of j] bit_8 [of r]
  by (cases b; cases "j = 7") (simp_all add: ftdi_shift_in_def bit_or_iff bit_drop_bit_eq)

lemma bit_foldl_shift_in:
  "j < 8 \<Longrightarrow>
   bit (foldl ftdi_shift_in r0 bs) j =
     (if 8 \<le> j + length bs then bs ! (j + length bs - 8) else bit r0 (j + length bs))"
proof (induction bs arbitrary: j rule: rev_induct)
  case Nil
  then show ?case by simp
next
  case (snoc b bs)
  show ?case
  proof (cases "j = 7")
    case True
    then show ?thesis by (simp add: bit_shift_in)
  next
    case False
    with snoc.prems have j: "Suc j < 8" by simp
    show ?thesis
      using snoc.prems False snoc.IH [OF j]
      by (auto simp: bit_shift_in nth_append)
  qed
qed

lemma ftdi_reply_byte:
  assumes "8 * i + 8 \<le> length tdo"
  shows "ftdi_reply r0 tdo (7 + i * 8) = tdo_byte tdo i"
proof (rule bit_word_eqI)
  fix j assume "j < LENGTH(8)"
  then have j: "j < 8" by simp
  have l: "length (take (Suc (7 + i * 8)) tdo) = 8 * i + 8" using assms by simp
  have "bit (ftdi_reply r0 tdo (7 + i * 8)) j = tdo ! (8 * i + j)"
    unfolding ftdi_reply_def bit_foldl_shift_in [OF j] l using j by (simp add: add.commute)
  moreover have "bit (tdo_byte tdo i) j = tdo ! (8 * i + j)"
    unfolding tdo_byte_def using j assms by (simp add: bit_horner_sum_bit_word_iff)
  ultimately show "bit (ftdi_reply r0 tdo (7 + i * 8)) j = bit (tdo_byte tdo i) j" by simp
qed

section \<open>The status register of the device: \<open>read_status_register\<close>\<close>

text \<open>
  The device found on the chain: \<open>enum device_type\<close>, \<open>struct device_info\<close> (its
  fields \<open>name\<close>, \<open>id\<close> and \<open>type\<close>, a null \<open>name\<close> being \<open>None\<close>) and the
  zero-initialised \<open>connected_device\<close>.
\<close>

datatype device_type = TYPE_NONE | TYPE_ECP5 | TYPE_NX

record device_info =
  info_name :: "string option"
  info_id :: "32 word"
  info_type :: device_type

definition connected_device :: device_info where
  "connected_device = \<lparr>info_name = None, info_id = 0, info_type = TYPE_NONE\<rparr>"

text \<open>The tables of lattice\_cmds.h, each entry a device name and its IDCODE.\<close>

definition ecp_devices :: "(string \<times> 32 word) list" where
  "ecp_devices =
     [(''LFE5U-12'', 0x21111043),
      (''LFE5U-25'', 0x41111043),
      (''LFE5U-45'', 0x41112043),
      (''LFE5U-85'', 0x41113043),
      (''LFE5UM-25'', 0x01111043),
      (''LFE5UM-45'', 0x01112043),
      (''LFE5UM-85'', 0x01113043),
      (''LFE5UM5G-25'', 0x81111043),
      (''LFE5UM5G-45'', 0x81112043),
      (''LFE5UM5G-85'', 0x81113043)]"

definition nx_devices :: "(string \<times> 32 word) list" where
  "nx_devices =
     [(''LIFCL-17'', 0x010F0043),
      (''LIFCL-40-ES'', 0x010F1043),
      (''LIFCL-40'', 0x110F1043),
      (''LFD2NX-17'', 0x310F0043),
      (''LFD2NX-40'', 0x310F1043),
      (''LFCPNX-100'', 0x010F4043)]"

definition READ_ID :: "8 word" where
  "READ_ID = 0xE0"

definition LSC_READ_STATUS :: "8 word" where
  "LSC_READ_STATUS = 0x3C"

text \<open>
  What the functions print on the standard output, one value per report: the IDCODE line
  with the name found or without, and the status register reports with the value they
  decode.
\<close>

datatype printed =
    Idcode_match "32 word" string
  | Idcode_no_match "32 word"
  | Ecp5_status "32 word"
  | Nx_status "64 word"

text \<open>
  \<open>print_idcode\<close>: the first entry of the ECP5 table with the IDCODE, else the first of
  the NX table; with neither, only the \<open>id\<close> field is written.
\<close>

definition print_idcode :: "32 word \<Rightarrow> device_info \<Rightarrow> device_info \<times> printed list" where
  "print_idcode idcode dev =
     (let dev1 = dev\<lparr>info_id := idcode\<rparr>
      in case find (\<lambda>p. idcode = snd p) ecp_devices of
           Some p \<Rightarrow> (dev1\<lparr>info_name := Some (fst p), info_type := TYPE_ECP5\<rparr>,
                      [Idcode_match idcode (fst p)])
         | None \<Rightarrow>
             (case find (\<lambda>p. idcode = snd p) nx_devices of
                Some p \<Rightarrow> (dev1\<lparr>info_name := Some (fst p), info_type := TYPE_NX\<rparr>,
                           [Idcode_match idcode (fst p)])
              | None \<Rightarrow> (dev1, [Idcode_no_match idcode])))"

text \<open>
  The loops that format the bytes shifted out into a value:
  \<open>status = data[i] << 24 | status >> 8\<close> over four bytes, and with 56 over eight.
\<close>

definition status32 :: "8 word list \<Rightarrow> 32 word" where
  "status32 bytes = foldl (\<lambda>status b. push_bit 24 (ucast b) OR drop_bit 8 status) 0 (take 4 bytes)"

definition status64 :: "8 word list \<Rightarrow> 64 word" where
  "status64 bytes = foldl (\<lambda>status b. push_bit 56 (ucast b) OR drop_bit 8 status) 0 (take 8 bytes)"

text \<open>
  \<open>read_status_register\<close>. The array \<open>data[8]\<close> is both the input and the output of
  every shift, which reads all its input before it writes its output.
\<close>

definition read_status_register ::
  "device_info \<Rightarrow> jtag \<Rightarrow> error + (printed list \<times> jtag)" where
  "read_status_register dev s =
     (let data0 = [LSC_READ_STATUS, 0, 0, 0, 0, 0, 0, 0];
          s1 = jtag_go_to_state STATE_SHIFT_IR s
      in case jtag_tap_shift data0 data0 8 True s1 of
           Inl e \<Rightarrow> Inl e
         | Inr (data1, s2) \<Rightarrow>
             (let data2 = data1[0 := 0];
                  s3 = jtag_go_to_state STATE_SHIFT_DR s2
              in if info_type dev = TYPE_ECP5 then
                   (case jtag_tap_shift data2 data2 32 True s3 of
                      Inl e \<Rightarrow> Inl e
                    | Inr (data3, s4) \<Rightarrow> Inr ([Ecp5_status (status32 data3)], s4))
                 else if info_type dev = TYPE_NX then
                   (case jtag_tap_shift data2 data2 64 True s3 of
                      Inl e \<Rightarrow> Inl e
                    | Inr (data3, s4) \<Rightarrow> Inr ([Nx_status (status64 data3)], s4))
                 else Inr ([], s3)))"

lemma find_none: "x \<notin> snd ` set ps \<Longrightarrow> find (\<lambda>p. x = snd p) ps = None"
  by (induction ps) auto

lemma print_idcode_no_match:
  assumes "idcode \<notin> snd ` set ecp_devices" and "idcode \<notin> snd ` set nx_devices"
  shows "print_idcode idcode dev = (dev\<lparr>info_id := idcode\<rparr>, [Idcode_no_match idcode])"
  by (simp add: print_idcode_def find_none [OF assms(1)] find_none [OF assms(2)])

lemma path_exit1_ir_shift_dr:
  "tms_path 9 STATE_EXIT1_IR STATE_SHIFT_DR = [True, True, False, False]"
  by (simp add: eval_nat_numeral hop_eval del: tms_map.simps)

lemma upt_8: "[0..<8] = [0, 1, 2, 3, 4, 5, 6, 7]"
  by code_simp

lemma ir_bits:
  "map snd (shift_pulses (b # rest) must_end 8) = map (bit b) [0..<8]"
  by (simp add: shift_pulses_def pulse_at_def upt_8)

lemma read_status_none:
  assumes "info_type dev = TYPE_NONE" and "length (data s) = 1024"
  shows "\<exists>ir s'. read_status_register dev s = Inr ([], s') \<and>
           sent s' = sent s @ map tms_cmd (tms_path 9 (current_state s) STATE_SHIFT_IR)
                       @ [ir] @ map tms_cmd [True, True, False, False] \<and>
           tdi_wire ir = map (bit LSC_READ_STATUS) [0..<8] \<and>
           tms_wire ir = replicate 7 False @ [True] \<and>
           acks s' = acks s @ tms_path 9 (current_state s) STATE_SHIFT_IR @ [True]
                       @ [True, True, False, False] \<and>
           current_state s' = STATE_SHIFT_DR"
proof -
  let ?d0 = "[LSC_READ_STATUS, 0, 0, 0, 0, 0, 0, 0]"
  let ?s1 = "jtag_go_to_state STATE_SHIFT_IR s"
  have s1: "?s1 = s\<lparr>acks := acks s @ tms_path 9 (current_state s) STATE_SHIFT_IR,
                    current_state := STATE_SHIFT_IR,
                    sent := sent s @ map tms_cmd (tms_path 9 (current_state s) STATE_SHIFT_IR)\<rparr>"
    by (simp add: go_to_other_eq)
  have a: "3 * unat (8 :: 32 word) \<le> 1024"
    "(unat (8 :: 32 word) + 7) div 8 \<le> length ?d0"
    "length (data ?s1) = 1024"
    "(unat (8 :: 32 word) mod 256) div 8 \<le> length ?d0"
    using assms(2) by (simp_all add: s1)
  note run = tap_shift_run [OF a, of True]
  have cnt: "tms_count (shift_pulses ?d0 True 8) = 1"
    by (simp add: tms_count_shift_pulses)
  show ?thesis
    unfolding read_status_register_def Let_def run
    using assms(1)
    by (simp add: s1 cnt go_to_other_eq tap_next_1 path_exit1_ir_shift_dr tms_wire_pulses
        tdi_wire_pulses tms_of_shift_pulses ir_bits)
qed

section \<open>The flash programming engine of ecpprog.c\<close>

text \<open>
  The engine drives the flash through the functions \<open>flash_write_enable\<close>,
  \<open>flash_4kB_sector_erase\<close>, \<open>flash_prog\<close>, \<open>flash_wait\<close> and so on. The passes of
  \<open>main\<close> are modelled by the sequence of these calls they make, each with its
  arguments (\<open>flash_prog\<close> with the bytes of its buffer).
\<close>

datatype flash_call =
    Flash_write_enable
  | Flash_bulk_erase
  | Flash_4kB_sector_erase int
  | Flash_32kB_sector_erase int
  | Flash_64kB_sector_erase int
  | Flash_read_status
  | Flash_wait
  | Flash_prog int "8 word list"
  | Flash_start_read int
  | Flash_continue_read int

subsection \<open>The erase pass\<close>

text \<open>
  The option parser of \<open>main\<close> accepts only \<open>4\<close>, \<open>32\<close> and \<open>64\<close> for the erase
  block size (and exits otherwise); 64 is the default.
\<close>

datatype erase_block = Erase_4k | Erase_32k | Erase_64k

fun erase_block_size :: "erase_block \<Rightarrow> int" where
  "erase_block_size Erase_4k = 4"
| "erase_block_size Erase_32k = 32"
| "erase_block_size Erase_64k = 64"

text \<open>
  \<open>end_addr\<close> is an \<open>int\<close> computed from the \<open>long\<close> \<open>file_size\<close>: the value is
  converted to 32 bits, which on the usual compilers keeps the low 32 bits as a two's
  complement number.
\<close>

definition int_of_long :: "int \<Rightarrow> int" where
  "int_of_long x = signed_take_bit 31 x"

text \<open>The \<open>switch (erase_block_size)\<close> of the loop body; it has no default case.\<close>

definition erase_switch :: "int \<Rightarrow> int \<Rightarrow> flash_call list" where
  "erase_switch ebs addr =
     (if ebs = 4 then [Flash_4kB_sector_erase addr]
      else if ebs = 32 then [Flash_32kB_sector_erase addr]
      else if ebs = 64 then [Flash_64kB_sector_erase addr]
      else [])"

text \<open>
  \<open>for (int addr = begin_addr; addr < end_addr; addr += block_size)\<close>, where
  \<open>block_size\<close> is \<open>erase_block_size << 10\<close>.
\<close>

function erase_loop :: "bool \<Rightarrow> erase_block \<Rightarrow> int \<Rightarrow> int \<Rightarrow> flash_call list" where
  "erase_loop verbose b addr end_addr =
     (if addr < end_addr then
        [Flash_write_enable] @ erase_switch (erase_block_size b) addr
          @ (if verbose then [Flash_read_status] else []) @ [Flash_wait]
          @ erase_loop verbose b (addr + push_bit 10 (erase_block_size b)) end_addr
      else [])"
  by pat_completeness auto
termination
  by (relation "measure (\<lambda>(verbose, b, addr, end_addr). nat (end_addr - addr))")
     (auto simp: push_bit_eq_mult, case_tac b, auto)

declare erase_loop.simps [simp del]

definition erase_pass :: "bool \<Rightarrow> erase_block \<Rightarrow> int \<Rightarrow> int \<Rightarrow> flash_call list" where
  "erase_pass verbose b rw_offset file_size =
     (let block_size = push_bit 10 (erase_block_size b);
          block_mask = block_size - 1;
          begin_addr = rw_offset AND NOT block_mask;
          end_addr = int_of_long ((rw_offset + file_size + block_mask) AND NOT block_mask)
      in erase_loop verbose b begin_addr end_addr)"

text \<open>The addresses a sequence of calls erases a block at.\<close>

fun erased_at :: "flash_call \<Rightarrow> int list" where
  "erased_at (Flash_4kB_sector_erase a) = [a]"
| "erased_at (Flash_32kB_sector_erase a) = [a]"
| "erased_at (Flash_64kB_sector_erase a) = [a]"
| "erased_at _ = []"

text \<open>
  The blocks a sequence of calls erases, each with its address and the number of bytes
  the command erases there: 4096 for the 4 kB sector erase, 32768 for the 32 kB and 65536
  for the 64 kB one.
\<close>

fun erased_blocks :: "flash_call \<Rightarrow> (int \<times> int) list" where
  "erased_blocks (Flash_4kB_sector_erase a) = [(a, 4096)]"
| "erased_blocks (Flash_32kB_sector_erase a) = [(a, 32768)]"
| "erased_blocks (Flash_64kB_sector_erase a) = [(a, 65536)]"
| "erased_blocks _ = []"

text \<open>
  The aligned range in the words of the spec: the block size in bytes, the range
  \<open>[floor(offset, block), ceil(offset + length, block))\<close>, its blocks in increasing
  order, the erase command of a block size (\<open>block_erase\<close>), and the calls to make for
  one block (\<open>erase_one\<close>): a write enable, the erase command of the block size at the
  block's address, a status read when verbose, and a wait.
\<close>

definition block_bytes :: "erase_block \<Rightarrow> int" where
  "block_bytes b = push_bit 10 (erase_block_size b)"

definition floor_block :: "int \<Rightarrow> int \<Rightarrow> int" where
  "floor_block B x = (x div B) * B"

definition ceil_block :: "int \<Rightarrow> int \<Rightarrow> int" where
  "ceil_block B x = ((x + B - 1) div B) * B"

definition aligned_blocks :: "int \<Rightarrow> int \<Rightarrow> int \<Rightarrow> int list" where
  "aligned_blocks B offset len =
     map (\<lambda>k. floor_block B offset + int k * B)
       [0..<nat ((ceil_block B (offset + len) - floor_block B offset) div B)]"

fun block_erase :: "erase_block \<Rightarrow> int \<Rightarrow> flash_call" where
  "block_erase Erase_4k addr = Flash_4kB_sector_erase addr"
| "block_erase Erase_32k addr = Flash_32kB_sector_erase addr"
| "block_erase Erase_64k addr = Flash_64kB_sector_erase addr"

definition erase_one :: "bool \<Rightarrow> erase_block \<Rightarrow> int \<Rightarrow> flash_call list" where
  "erase_one verbose b addr =
     [Flash_write_enable, block_erase b addr]
       @ (if verbose then [Flash_read_status] else []) @ [Flash_wait]"

lemma erase_switch_block: "erase_switch (erase_block_size b) addr = [block_erase b addr]"
  by (cases b) (simp_all add: erase_switch_def)

lemma and_not_mask_int: "(x::int) AND NOT (mask n) = (x div 2 ^ n) * 2 ^ n"
proof -
  have "x AND NOT (mask n) = push_bit n (drop_bit n x)"
    by (rule bit_eqI) (auto simp: bit_simps)
  then show ?thesis by (simp add: push_bit_eq_mult drop_bit_eq_div)
qed

lemma block_bytes_pos: "0 < block_bytes b"
  by (cases b) (simp_all add: block_bytes_def)

lemma block_mask_eq: "block_bytes b - 1 = mask (case b of Erase_4k \<Rightarrow> 12 | Erase_32k \<Rightarrow> 15 | Erase_64k \<Rightarrow> 16)"
  by (cases b) (simp_all add: block_bytes_def mask_eq_exp_minus_1)

lemma block_bytes_pow: "block_bytes b = 2 ^ (case b of Erase_4k \<Rightarrow> 12 | Erase_32k \<Rightarrow> 15 | Erase_64k \<Rightarrow> 16)"
  by (cases b) (simp_all add: block_bytes_def)

lemma align_down: "x AND NOT (block_bytes b - 1) = floor_block (block_bytes b) x"
  unfolding block_mask_eq and_not_mask_int floor_block_def
  by (simp add: block_bytes_pow)


lemma div_le_0: "0 < B \<Longrightarrow> x < B \<Longrightarrow> x div B \<le> (0::int)"
proof -
  assume a: "0 < B" "x < B"
  then have "x div B \<le> (B - 1) div B" by (intro zdiv_mono1) simp_all
  also have "(B - 1) div B = 0" using a by (intro div_pos_pos_trivial) simp_all
  finally show ?thesis .
qed

lemma div_add_block: "0 < B \<Longrightarrow> (x + B) div B = x div B + (1::int)"
  using div_add_self2 [of B x] by simp

lemma floor_le: "0 < B \<Longrightarrow> x div B * B \<le> (x::int)"
  by (simp add: minus_mod_eq_div_mult [symmetric])

lemma dvd_ceil_div: "B dvd y \<Longrightarrow> 0 < B \<Longrightarrow> (y + B - 1) div B = y div (B::int)"
proof -
  assume a: "B dvd y" "0 < B"
  then obtain k where k: "y = B * k" by (auto elim: dvdE)
  have "(B * k + (B - 1)) div B = k + (B - 1) div B" using a by simp
  also have "(B - 1) div B = 0" using a by (intro div_pos_pos_trivial) simp_all
  finally show ?thesis using a k by (simp add: algebra_simps)
qed

lemma erase_loop_eq:
  "erase_loop verbose b addr end_addr =
     concat (map (erase_one verbose b)
       (map (\<lambda>k. addr + int k * block_bytes b)
          [0..<nat ((end_addr - addr + block_bytes b - 1) div block_bytes b)]))"
proof (induction verbose b addr end_addr rule: erase_loop.induct)
  case (1 verbose b addr end_addr)
  define B where "B = block_bytes b"
  have Bpos: "0 < B" by (simp add: B_def block_bytes_pos)
  show ?case
  proof (cases "addr < end_addr")
    case False
    then have "end_addr - addr + B - 1 < B" by simp
    then have "(end_addr - addr + B - 1) div B \<le> 0"
      using Bpos by (intro div_le_0)
    then show ?thesis using False
      by (simp add: erase_loop.simps [of verbose b addr end_addr] B_def)
  next
    case True
    define m where "m = nat ((end_addr - (addr + B) + B - 1) div B)"
    have e: "end_addr - addr + B - 1 = (end_addr - (addr + B) + B - 1) + B" by simp
    have "(end_addr - addr + B - 1) div B = (end_addr - (addr + B) + B - 1) div B + 1"
      by (simp only: e div_add_block [OF Bpos])
    moreover have "0 \<le> (end_addr - (addr + B) + B - 1) div B"
      using True Bpos by (simp add: pos_imp_zdiv_nonneg_iff)
    ultimately have n: "nat ((end_addr - addr + B - 1) div B) = Suc m"
      by (simp add: m_def nat_add_distrib)
    have upt: "[0..<Suc m] = 0 # map Suc [0..<m]"
      by (simp add: upt_conv_Cons map_Suc_upt del: upt_Suc)
    have ih: "erase_loop verbose b (addr + B) end_addr =
        concat (map (erase_one verbose b) (map (\<lambda>k. addr + B + int k * B) [0..<m]))"
      using "1.IH" [OF True] by (simp add: B_def m_def block_bytes_def)
    have "erase_loop verbose b addr end_addr =
        erase_one verbose b addr @ erase_loop verbose b (addr + B) end_addr"
      using True by (simp add: erase_loop.simps [of verbose b addr end_addr] erase_one_def
          erase_switch_block B_def block_bytes_def)
    then show ?thesis
      unfolding ih B_def [symmetric] n upt
      by (simp add: o_def algebra_simps)
  qed
qed

lemma erase_pass_eq:
  assumes "0 \<le> offset" "0 \<le> len" "offset + len + block_bytes b \<le> 2 ^ 31"
  shows "erase_pass verbose b offset len =
     concat (map (erase_one verbose b) (aligned_blocks (block_bytes b) offset len))"
proof -
  define B where "B = block_bytes b"
  have Bpos: "0 < B" by (simp add: B_def block_bytes_pos)
  have ce: "ceil_block B (offset + len) \<le> offset + len + B - 1"
    unfolding ceil_block_def using Bpos by (intro floor_le)
  have ce0: "0 \<le> ceil_block B (offset + len)"
    using Bpos assms(1,2) by (simp add: ceil_block_def pos_imp_zdiv_nonneg_iff)
  have end_eq: "(offset + len + (B - 1)) AND NOT (B - 1) = ceil_block B (offset + len)"
    using align_down [of "offset + len + (B - 1)" b]
    by (simp add: B_def floor_block_def ceil_block_def algebra_simps)
  have trunc: "int_of_long (ceil_block B (offset + len)) = ceil_block B (offset + len)"
    unfolding int_of_long_def
    using ce ce0 assms(3) by (intro signed_take_bit_int_eq_self) (simp_all add: B_def)
  have dvd: "B dvd ceil_block B (offset + len) - floor_block B offset"
    by (simp add: ceil_block_def floor_block_def)
  have cnt: "(ceil_block B (offset + len) - floor_block B offset + B - 1) div B
      = (ceil_block B (offset + len) - floor_block B offset) div B"
    using dvd Bpos by (rule dvd_ceil_div)
  have begin_eq: "offset AND NOT (B - 1) = floor_block B offset"
    using align_down [of offset b] by (simp add: B_def)
  show ?thesis
    unfolding erase_pass_def Let_def block_bytes_def [symmetric] B_def [symmetric]
    by (simp add: end_eq trunc erase_loop_eq begin_eq aligned_blocks_def cnt B_def [symmetric])
qed


lemma erased_at_erase_one: "concat (map erased_at (erase_one verbose b a)) = [a]"
  by (cases b) (simp_all add: erase_one_def)

lemma erased_blocks_erase_one:
  "concat (map erased_blocks (erase_one verbose b a)) = [(a, block_bytes b)]"
  by (cases b) (simp_all add: erase_one_def block_bytes_def)

lemma erased_blocks_blocks:
  "concat (map erased_blocks (concat (map (erase_one verbose b) as))) =
     map (\<lambda>a. (a, block_bytes b)) as"
  by (induction as) (simp_all add: erased_blocks_erase_one)

lemma erased_at_blocks:
  "concat (map erased_at (concat (map (erase_one verbose b) as))) = as"
  by (induction as) (simp_all add: erased_at_erase_one)

lemma aligned_blocks_increasing: "0 < B \<Longrightarrow> sorted_wrt (<) (aligned_blocks B offset len)"
  by (simp add: aligned_blocks_def sorted_wrt_map sorted_wrt_iff_nth_less)

lemma aligned_blocks_set:
  assumes "0 < B"
  shows "set (aligned_blocks B offset len) =
     {a. B dvd a \<and> floor_block B offset \<le> a \<and> a < ceil_block B (offset + len)}"
proof -
  define f where "f = offset div B"
  define c where "c = (offset + len + B - 1) div B"
  have fl: "floor_block B offset = f * B" by (simp add: floor_block_def f_def)
  have ce: "ceil_block B (offset + len) = c * B" by (simp add: ceil_block_def c_def)
  have n: "(c * B - f * B) div B = c - f"
    using assms by (simp add: left_diff_distrib [symmetric])
  show ?thesis
  proof (intro set_eqI iffI)
    fix a assume "a \<in> set (aligned_blocks B offset len)"
    then obtain k where k: "k < nat (c - f)" "a = f * B + int k * B"
      unfolding aligned_blocks_def fl ce n by auto
    then have "a = (f + int k) * B" "f + int k < c" "f \<le> f + int k"
      by (simp_all add: algebra_simps)
    then show "a \<in> {a. B dvd a \<and> floor_block B offset \<le> a \<and> a < ceil_block B (offset + len)}"
      using assms by (simp add: fl ce)
  next
    fix a assume "a \<in> {a. B dvd a \<and> floor_block B offset \<le> a \<and> a < ceil_block B (offset + len)}"
    then have a: "B dvd a" "f * B \<le> a" "a < c * B"
      by (simp_all add: fl ce)
    from a(1) obtain q where "a = B * q" by (rule dvdE)
    with a have q: "a = q * B" "f * B \<le> q * B" "q * B < c * B"
      by (simp_all add: mult.commute)
    then have "f \<le> q" "q < c" using assms by simp_all
    then have "a = f * B + int (nat (q - f)) * B" "nat (q - f) < nat (c - f)"
      using q(1) by (simp_all add: algebra_simps)
    then show "a \<in> set (aligned_blocks B offset len)"
      by (auto simp: aligned_blocks_def fl ce n image_iff intro!: bexI [of _ "nat (q - f)"])
  qed
qed

subsection \<open>Waiting for the flash: \<open>flash_wait\<close>\<close>

text \<open>
  \<open>flash_wait\<close> polls status register 1 in a loop with no bound. The model runs it
  over the sequence of status bytes the polls read (\<open>data[1]\<close> after \<open>xfer_spi\<close>):
  \<open>status k\<close> is the byte of the poll number \<open>k\<close>, counted from 0. The loop may run
  forever, so the result is an option: \<open>Some n\<close> when it returns after \<open>n\<close> polls,
  \<open>None\<close> when it never returns.
\<close>

partial_function (option) flash_wait_loop :: "(nat \<Rightarrow> 8 word) \<Rightarrow> nat \<Rightarrow> nat \<Rightarrow> nat option" where
  "flash_wait_loop status polls count =
     (if status polls AND 0x01 = 0 then
        (if count < 2 then flash_wait_loop status (Suc polls) (count + 1)
         else Some (Suc polls))
      else flash_wait_loop status (Suc polls) 0)"

definition flash_wait :: "(nat \<Rightarrow> 8 word) \<Rightarrow> nat option" where
  "flash_wait status = flash_wait_loop status 0 0"

text \<open>
  The busy bit reads clear at poll \<open>k\<close>; the last three of the first \<open>n\<close> polls read
  it clear; and the loop invariant: \<open>count\<close> is the length of the run of clear reads
  that ends just before poll \<open>i\<close>.
\<close>

definition ready :: "(nat \<Rightarrow> 8 word) \<Rightarrow> nat \<Rightarrow> bool" where
  "ready status k = (status k AND 0x01 = 0)"

definition three_clear :: "(nat \<Rightarrow> 8 word) \<Rightarrow> nat \<Rightarrow> bool" where
  "three_clear status n =
     (3 \<le> n \<and> ready status (n - 1) \<and> ready status (n - 2) \<and> ready status (n - 3))"

definition run_inv :: "(nat \<Rightarrow> 8 word) \<Rightarrow> nat \<Rightarrow> nat \<Rightarrow> bool" where
  "run_inv status i c =
     (c \<le> 2 \<and> c \<le> i \<and> (\<forall>k<c. ready status (i - 1 - k)) \<and>
      (c = i \<or> \<not> ready status (i - c - 1)))"

lemma run_inv_ready:
  "run_inv st i c \<Longrightarrow> ready st i \<Longrightarrow> c < 2 \<Longrightarrow> run_inv st (Suc i) (Suc c)"
  by (auto simp: run_inv_def less_Suc_eq_0_disj)

lemma run_inv_busy: "\<not> ready st i \<Longrightarrow> run_inv st (Suc i) 0"
  by (simp add: run_inv_def)

lemma run_inv_done:
  "run_inv st i c \<Longrightarrow> ready st i \<Longrightarrow> \<not> c < 2 \<Longrightarrow> three_clear st (Suc i)"
  by (auto simp: run_inv_def three_clear_def numeral_2_eq_2 less_Suc_eq dest!: spec)

lemma run_inv_no_triple:
  "run_inv st i c \<Longrightarrow> c < 2 \<Longrightarrow> \<not> three_clear st (Suc i)"
  apply (auto simp: run_inv_def three_clear_def numeral_2_eq_2 numeral_3_eq_3 less_Suc_eq)
  done

lemma busy_no_triple: "\<not> ready st i \<Longrightarrow> \<not> three_clear st (Suc i)"
  by (simp add: three_clear_def)

lemma wait_partial_imp:
  "flash_wait_loop st i c = Some n \<Longrightarrow> run_inv st i c \<longrightarrow> three_clear st n"
proof (induct rule: flash_wait_loop.raw_induct [rotated 1, consumes 1])
  case (1 f st i c n)
  show ?case
  proof
    assume inv: "run_inv st i c"
    show "three_clear st n"
    proof (cases "ready st i")
      case r: True
      show ?thesis
      proof (cases "c < 2")
        case True
        with r "1.hyps"(2) have "f st (Suc i) (Suc c) = Some n"
          by (simp add: ready_def)
        moreover have "run_inv st (Suc i) (Suc c)"
          using inv r True by (rule run_inv_ready)
        ultimately show ?thesis using "1.hyps"(1) by blast
      next
        case False
        with r "1.hyps"(2) have "n = Suc i" by (simp add: ready_def)
        with inv r False show ?thesis by (simp add: run_inv_done)
      qed
    next
      case False
      with "1.hyps"(2) have "f st (Suc i) 0 = Some n" by (simp add: ready_def)
      moreover have "run_inv st (Suc i) 0" using False by (rule run_inv_busy)
      ultimately show ?thesis using "1.hyps"(1) by blast
    qed
  qed
qed

lemma wait_partial:
  "flash_wait_loop st i c = Some n \<Longrightarrow> run_inv st i c \<Longrightarrow> three_clear st n"
  using wait_partial_imp by blast

lemma wait_total:
  "three_clear st n \<Longrightarrow> \<forall>m<n. \<not> three_clear st m \<Longrightarrow> i < n \<Longrightarrow> run_inv st i c
   \<Longrightarrow> flash_wait_loop st i c = Some n"
proof (induction "n - i" arbitrary: i c)
  case 0
  then show ?case by simp
next
  case (Suc d)
  show ?case
  proof (cases "ready st i")
    case r: True
    show ?thesis
    proof (cases "c < 2")
      case True
      then have "\<not> three_clear st (Suc i)" using Suc.prems(4) by (rule run_inv_no_triple [rotated])
      with Suc.prems(1,3) have lt: "Suc i < n" by (cases "Suc i = n") auto
      have "flash_wait_loop st (Suc i) (Suc c) = Some n"
        using Suc.hyps Suc.prems lt r True by (intro Suc.hyps(1)) (auto intro: run_inv_ready)
      then show ?thesis
        using r True by (subst flash_wait_loop.simps) (simp add: ready_def)
    next
      case False
      then have "three_clear st (Suc i)" using Suc.prems(4) r by (intro run_inv_done)
      with Suc.prems(2,3) have "n = Suc i" by (metis Suc_lessI)
      then show ?thesis
        using r False by (subst flash_wait_loop.simps) (simp add: ready_def)
    qed
  next
    case False
    then have "\<not> three_clear st (Suc i)" by (rule busy_no_triple)
    with Suc.prems(1,3) have lt: "Suc i < n" by (cases "Suc i = n") auto
    have "flash_wait_loop st (Suc i) 0 = Some n"
      using Suc.hyps Suc.prems lt False by (intro Suc.hyps(1)) (auto intro: run_inv_busy)
    then show ?thesis
      using False by (subst flash_wait_loop.simps) (simp add: ready_def)
  qed
qed

lemma run_inv_start: "run_inv st 0 0"
  by (simp add: run_inv_def)

lemma three_clear_pos: "three_clear st n \<Longrightarrow> 0 < n"
  by (simp add: three_clear_def)

lemma flash_wait_Some_iff:
  "flash_wait st = Some n \<longleftrightarrow> three_clear st n \<and> (\<forall>m<n. \<not> three_clear st m)"
proof
  assume r: "three_clear st n \<and> (\<forall>m<n. \<not> three_clear st m)"
  then show "flash_wait st = Some n"
    unfolding flash_wait_def
    by (intro wait_total run_inv_start) (auto dest: three_clear_pos)
next
  assume s: "flash_wait st = Some n"
  then have "three_clear st n"
    unfolding flash_wait_def by (rule wait_partial) (rule run_inv_start)
  then obtain n0 where n0: "three_clear st n0" "\<forall>m<n0. \<not> three_clear st m"
    using exists_least_iff [of "three_clear st"] by blast
  then have "flash_wait st = Some n0"
    unfolding flash_wait_def
    by (intro wait_total run_inv_start) (auto dest: three_clear_pos)
  with s have "n = n0" by simp
  with n0 show "three_clear st n \<and> (\<forall>m<n. \<not> three_clear st m)" by simp
qed

lemma flash_wait_None_iff:
  "flash_wait st = None \<longleftrightarrow> (\<forall>n. \<not> three_clear st n)"
proof
  assume "\<forall>n. \<not> three_clear st n"
  then show "flash_wait st = None"
    using flash_wait_Some_iff [of st] by (cases "flash_wait st") auto
next
  assume none: "flash_wait st = None"
  show "\<forall>n. \<not> three_clear st n"
  proof (intro allI notI)
    fix n assume "three_clear st n"
    then obtain n0 where n0: "three_clear st n0" "\<forall>m<n0. \<not> three_clear st m"
      using exists_least_iff [of "three_clear st"] by blast
    then have "flash_wait st = Some n0" by (simp add: flash_wait_Some_iff)
    with none show False by simp
  qed
qed

lemma upt_2: "[0..<2] = [0, Suc 0]"
  by (simp add: upt_rec)

lemma mod3_run: "(k::nat) mod 3 = 2 \<or> (k + 1) mod 3 = 2 \<or> (k + 2) mod 3 = 2"
proof -
  have "k mod 3 < 3" by simp
  then have c: "k mod 3 = 0 \<or> k mod 3 = 1 \<or> k mod 3 = 2" by arith
  have "(k + 1) mod 3 = (k mod 3 + 1) mod 3" "(k + 2) mod 3 = (k mod 3 + 2) mod 3"
    by (simp_all add: mod_Suc_eq mod_Suc_Suc_eq)
  with c show ?thesis by auto
qed

subsection \<open>The program pass\<close>

text \<open>
  The remainder of C on \<open>int\<close>, which truncates towards zero.
\<close>

definition c_rem :: "int \<Rightarrow> int \<Rightarrow> int" where
  "c_rem a b = sgn a * (\<bar>a\<bar> mod \<bar>b\<bar>)"

definition read_blocksize :: int where
  "read_blocksize = 256 * 32"

text \<open>
  The inner loop of the program pass over one chunk of \<open>rc\<close> bytes read into
  \<open>buffer_file\<close>. The \<open>memcpy\<close> into \<open>buffer_tx[256]\<close> of a length that is not in
  \<open>1..256\<close> is the error \<open>Buffer_tx_overrun\<close>; the addresses are those of an offset and
  a file that fit \<open>int\<close>.
\<close>

function page_loop :: "int \<Rightarrow> int \<Rightarrow> int \<Rightarrow> 8 word list \<Rightarrow> int \<Rightarrow> error + flash_call list" where
  "page_loop rw_offset addr rc buffer_file block_offset =
     (if block_offset < rc then
        (let write_addr = rw_offset + addr + block_offset;
             written0 = 256 - c_rem write_addr 256;
             written = (if block_offset + written0 > read_blocksize
                        then read_blocksize - block_offset else written0)
         in if written \<le> 0 \<or> 256 < written then Inl Buffer_tx_overrun
            else (case page_loop rw_offset addr rc buffer_file (block_offset + written) of
                    Inl e \<Rightarrow> Inl e
                  | Inr rest \<Rightarrow>
                      Inr ([Flash_write_enable,
                            Flash_prog write_addr
                              (take (nat written) (drop (nat block_offset) buffer_file)),
                            Flash_wait] @ rest)))
      else Inr [])"
  by pat_completeness auto
termination
  by (relation "measure (\<lambda>(rw_offset, addr, rc, buffer_file, block_offset).
        nat (rc - block_offset))") (auto simp: Let_def split: if_splits)

declare page_loop.simps [simp del]

text \<open>
  The outer loop: \<open>fread\<close> takes the next \<open>read_blocksize\<close> bytes of the file \<open>f\<close>
  into the start of \<open>buffer_file\<close>, whose other bytes keep what they held; the pass ends
  at the first empty read. With the interleaved verify, the chunk is read back (the flash
  answering \<open>readback\<close>) and compared.
\<close>

function program_loop ::
  "bool \<Rightarrow> (int \<Rightarrow> int \<Rightarrow> 8 word list) \<Rightarrow> int \<Rightarrow> 8 word list \<Rightarrow> int \<Rightarrow> 8 word list
     \<Rightarrow> error + flash_call list" where
  "program_loop verify readback rw_offset f addr buffer_file =
     (let chunk = take (nat read_blocksize) f;
          rc = int (length chunk);
          buffer_file' = chunk @ drop (length chunk) buffer_file
      in if rc \<le> 0 then Inr []
         else (case page_loop rw_offset addr rc buffer_file' 0 of
                 Inl e \<Rightarrow> Inl e
               | Inr progs \<Rightarrow>
                   (let checks = (if verify
                          then [Flash_start_read (rw_offset + addr), Flash_continue_read rc,
                                Flash_wait]
                          else [])
                    in if verify \<and> take (nat rc) buffer_file' \<noteq> readback (rw_offset + addr) rc
                       then Inl Verify_mismatch
                       else (case program_loop verify readback rw_offset
                                     (drop (nat read_blocksize) f) (addr + rc) buffer_file' of
                               Inl e \<Rightarrow> Inl e
                             | Inr rest \<Rightarrow> Inr (progs @ checks @ rest)))))"
  by pat_completeness auto
termination
  by (relation "measure (\<lambda>(verify, readback, rw_offset, f, addr, buffer_file). length f)")
    (auto simp: Let_def read_blocksize_def)

declare program_loop.simps [simp del]

text \<open>
  The page-program commands of a pass: address and number of bytes.
\<close>

fun programmed :: "flash_call \<Rightarrow> (int \<times> nat) list" where
  "programmed (Flash_prog a bs) = [(a, length bs)]"
| "programmed _ = []"

definition programs :: "error + flash_call list \<Rightarrow> (int \<times> nat) list" where
  "programs r = (case r of Inl e \<Rightarrow> [] | Inr calls \<Rightarrow> concat (map programmed calls))"

section \<open>Properties of the navigation\<close>



text \<open>
  C4. From every state of the layer, \<open>jtag_go_to_state(STATE_TEST_LOGIC_RESET)\<close> writes
  exactly one buffer to the link, the TMS command of five bits \<open>0b11111\<close>, which is five
  clock pulses all with TMS = 1; it calls \<open>jtag_state_ack(true)\<close> exactly five times and
  nothing else on the state variable; and the current state afterwards is
  Test-Logic-Reset.
\<close>

theorem go_to_reset_emits_five_tms_ones:
  "sent (jtag_go_to_state STATE_TEST_LOGIC_RESET s) =
     sent s @ [[MC_DATA_TMS OR MC_DATA_LSB OR MC_DATA_BITS, 4, 0x1F]] \<and>
   tms_wire (concat (drop (length (sent s)) (sent (jtag_go_to_state STATE_TEST_LOGIC_RESET s))))
     = replicate 5 True \<and>
   acks (jtag_go_to_state STATE_TEST_LOGIC_RESET s) = acks s @ replicate 5 True \<and>
   current_state (jtag_go_to_state STATE_TEST_LOGIC_RESET s) = STATE_TEST_LOGIC_RESET"
  by (simp add: go_to_reset_eq tms_wire_reset del: tms_wire.simps)

text \<open>
  C5 (as amended). For every target other than Test-Logic-Reset, if the current state
  already equals the target then \<open>jtag_go_to_state\<close> changes nothing: no buffer is
  written, no state update is made, the state of the layer is the one it was called in.
  For the target Test-Logic-Reset the call is not a no-op even when the current state is
  Test-Logic-Reset already: it clocks out five pulses with TMS = 1, and the current state
  stays Test-Logic-Reset.
\<close>

theorem go_to_state_same_state:
  "(t \<noteq> STATE_TEST_LOGIC_RESET \<longrightarrow> current_state s = t \<longrightarrow> jtag_go_to_state t s = s) \<and>
   (current_state s = STATE_TEST_LOGIC_RESET \<longrightarrow>
      current_state (jtag_go_to_state STATE_TEST_LOGIC_RESET s) = STATE_TEST_LOGIC_RESET \<and>
      tms_wire (concat (drop (length (sent s))
         (sent (jtag_go_to_state STATE_TEST_LOGIC_RESET s)))) = replicate 5 True)"
proof -
  have "jtag_go_to_state t s = s" if "t \<noteq> STATE_TEST_LOGIC_RESET" "current_state s = t"
  proof -
    from that(2) have "s\<lparr>current_state := t\<rparr> = s" by simp
    with that show ?thesis by (simp add: go_to_other_eq tms_path_same)
  qed
  then show ?thesis
    by (simp add: go_to_reset_eq tms_wire_reset del: tms_wire.simps)
qed

theorem go_to_state_same_state_witness:
  "jtag_go_to_state STATE_SHIFT_DR (jtag_at STATE_SHIFT_DR) = jtag_at STATE_SHIFT_DR \<and>
   current_state (jtag_go_to_state STATE_TEST_LOGIC_RESET (jtag_at STATE_TEST_LOGIC_RESET))
     = STATE_TEST_LOGIC_RESET \<and>
   tms_wire (concat (sent
     (jtag_go_to_state STATE_TEST_LOGIC_RESET (jtag_at STATE_TEST_LOGIC_RESET))))
     = [True, True, True, True, True]"
proof -
  have r: "replicate 5 True = [True, True, True, True, True]"
    by (simp add: eval_nat_numeral)
  from go_to_state_same_state [of STATE_SHIFT_DR "jtag_at STATE_SHIFT_DR"]
    go_to_state_same_state [of STATE_TEST_LOGIC_RESET "jtag_at STATE_TEST_LOGIC_RESET"]
  show ?thesis
    unfolding r by (simp add: jtag_at_def)
qed

text \<open>
  The claim as stated fails for the target Test-Logic-Reset: called in Test-Logic-Reset,
  \<open>jtag_go_to_state(STATE_TEST_LOGIC_RESET)\<close> still puts five TMS pulses on the wire.
\<close>

theorem go_to_reset_in_reset_counterexample:
  "current_state (jtag_at STATE_TEST_LOGIC_RESET) = STATE_TEST_LOGIC_RESET \<and>
   tms_wire (concat (sent
     (jtag_go_to_state STATE_TEST_LOGIC_RESET (jtag_at STATE_TEST_LOGIC_RESET)))) \<noteq> []"
  by (simp add: go_to_reset_eq jtag_at_def tms_wire_reset del: tms_wire.simps)

section \<open>Properties of the shift transport\<close>

text \<open>
  A shift that fits the staging buffer: the result, with the TMS levels of the one buffer
  written, the state updates made and the state reached.
\<close>

lemma tap_shift_ok_parts:
  assumes "0 < unat data_bits" and "3 * unat data_bits \<le> 1024"
    and "(unat data_bits + 7) div 8 \<le> length input_data"
    and "(unat data_bits mod 256) div 8 \<le> length output_data"
    and "length (data s) = 1024"
  shows "\<exists>out s' buf.
           jtag_tap_shift input_data output_data data_bits must_end s = Inr (out, s') \<and>
           sent s' = sent s @ [buf] \<and>
           tms_wire buf = (if must_end then replicate (unat data_bits - 1) False @ [True]
                           else replicate (unat data_bits) False) \<and>
           acks s' = acks s @ (if must_end then [True] else []) \<and>
           current_state s' = (if must_end then tap_next True (current_state s)
                               else current_state s)"
  using assms
  by (simp add: tap_shift_run [OF assms(2,3,5,4)] tms_wire_pulses tms_of_shift_pulses
      tms_count_shift_pulses length_pulses)

text \<open>
  C6. A shift of \<open>N \<ge> 1\<close> bits started in Shift-DR, with the staging buffer
  \<open>data[1024]\<close> of the source. While the three command bytes per bit fit the buffer
  (\<open>3 * N \<le> 1024\<close>, that is \<open>N \<le> 341\<close>), \<open>jtag_tap_shift\<close> with
  \<open>must_end = true\<close> writes one buffer whose TMS level is 1 on the final bit and 0 on
  every earlier one, calls \<open>jtag_state_ack(true)\<close> exactly once, and ends in Exit1-DR;
  with \<open>must_end = false\<close> no bit has TMS = 1, no state update is made, and the state
  stays Shift-DR. For every longer shift (\<open>N \<ge> 342\<close>) the pulse of bit 342 writes
  past the end of the staging buffer, whatever \<open>must_end\<close> is (the error
  \<open>Data_overrun\<close> of the model).
\<close>

theorem tap_shift_exit_transition:
  assumes "0 < unat data_bits" and "unat data_bits + 7 < 2 ^ 32"
    and "(unat data_bits + 7) div 8 \<le> length input_data"
    and "(unat data_bits mod 256) div 8 \<le> length output_data"
    and "length (data s) = 1024" and "current_state s = STATE_SHIFT_DR"
  shows "(3 * unat data_bits \<le> 1024 \<longrightarrow>
           (\<exists>out s' buf.
              jtag_tap_shift input_data output_data data_bits True s = Inr (out, s') \<and>
              sent s' = sent s @ [buf] \<and>
              tms_wire buf = replicate (unat data_bits - 1) False @ [True] \<and>
              acks s' = acks s @ [True] \<and> current_state s' = STATE_EXIT1_DR) \<and>
           (\<exists>out s' buf.
              jtag_tap_shift input_data output_data data_bits False s = Inr (out, s') \<and>
              sent s' = sent s @ [buf] \<and>
              tms_wire buf = replicate (unat data_bits) False \<and>
              acks s' = acks s \<and> current_state s' = STATE_SHIFT_DR)) \<and>
         (1024 < 3 * unat data_bits \<longrightarrow>
            jtag_tap_shift input_data output_data data_bits must_end s = Inl Data_overrun)"
proof (intro conjI impI)
  assume le: "3 * unat data_bits \<le> 1024"
  show "\<exists>out s' buf.
              jtag_tap_shift input_data output_data data_bits True s = Inr (out, s') \<and>
              sent s' = sent s @ [buf] \<and>
              tms_wire buf = replicate (unat data_bits - 1) False @ [True] \<and>
              acks s' = acks s @ [True] \<and> current_state s' = STATE_EXIT1_DR"
    using tap_shift_ok_parts [OF assms(1) le assms(3,4,5), of True] assms(6)
    by (auto simp: tap_next_1)
  show "\<exists>out s' buf.
              jtag_tap_shift input_data output_data data_bits False s = Inr (out, s') \<and>
              sent s' = sent s @ [buf] \<and>
              tms_wire buf = replicate (unat data_bits) False \<and>
              acks s' = acks s \<and> current_state s' = STATE_SHIFT_DR"
    using tap_shift_ok_parts [OF assms(1) le assms(3,4,5), of False] assms(6)
    by auto
next
  assume "1024 < 3 * unat data_bits"
  then show "jtag_tap_shift input_data output_data data_bits must_end s = Inl Data_overrun"
    using assms(2,3) by (rule tap_shift_overrun)
qed

text \<open>
  The shift of the 8 bits of an instruction, with and without \<open>must_end\<close>, and the
  shift of the 2048 bits of a flash page, which overruns the staging buffer.
\<close>

theorem tap_shift_exit_transition_witness:
  "(\<exists>out s' buf.
      jtag_tap_shift [0x3C] [0x00] 8 True (jtag_at STATE_SHIFT_DR) = Inr (out, s') \<and>
      sent s' = [buf] \<and>
      tms_wire buf = [False, False, False, False, False, False, False, True] \<and>
      acks s' = [True] \<and> current_state s' = STATE_EXIT1_DR) \<and>
   (\<exists>out s' buf.
      jtag_tap_shift [0x3C] [0x00] 8 False (jtag_at STATE_SHIFT_DR) = Inr (out, s') \<and>
      sent s' = [buf] \<and>
      tms_wire buf = [False, False, False, False, False, False, False, False] \<and>
      acks s' = [] \<and> current_state s' = STATE_SHIFT_DR) \<and>
   jtag_tap_shift (replicate 256 0xFF) (replicate 256 0xFF) 2048 True (jtag_at STATE_SHIFT_DR)
     = Inl Data_overrun"
proof -
  have r7: "replicate 7 False = [False, False, False, False, False, False, False]"
    and r8: "replicate 8 False = [False, False, False, False, False, False, False, False]"
    by (simp_all add: eval_nat_numeral)
  have a: "0 < unat (8 :: 32 word)" "unat (8 :: 32 word) + 7 < 2 ^ 32"
    "(unat (8 :: 32 word) + 7) div 8 \<le> length [0x3C :: 8 word]"
    "(unat (8 :: 32 word) mod 256) div 8 \<le> length [0x00 :: 8 word]"
    "length (data (jtag_at STATE_SHIFT_DR)) = 1024"
    "current_state (jtag_at STATE_SHIFT_DR) = STATE_SHIFT_DR"
    by (simp_all add: jtag_at_def)
  have b: "0 < unat (2048 :: 32 word)" "unat (2048 :: 32 word) + 7 < 2 ^ 32"
    "(unat (2048 :: 32 word) + 7) div 8 \<le> length (replicate 256 (0xFF :: 8 word))"
    "(unat (2048 :: 32 word) mod 256) div 8 \<le> length (replicate 256 (0xFF :: 8 word))"
    by simp_all
  from tap_shift_exit_transition [OF a, of True]
       tap_shift_exit_transition [OF b a(5,6), of True]
  show ?thesis
    by (simp add: r7 r8 jtag_at_def)
qed

text \<open>
  The claim as stated, for every \<open>N \<ge> 1\<close>, fails at the shift \<open>flash_prog\<close> makes for
  a page of 256 bytes: the 2048 bits do not fit the staging buffer and the shift returns
  no result.
\<close>

theorem tap_shift_flash_page_counterexample:
  "\<not> (\<exists>out s'. jtag_tap_shift (replicate 256 0xFF) (replicate 256 0xFF) 2048 True
                    (jtag_at STATE_SHIFT_DR) = Inr (out, s'))"
proof -
  have "jtag_tap_shift (replicate 256 0xFF) (replicate 256 0xFF) 2048 True
          (jtag_at STATE_SHIFT_DR) = Inl Data_overrun"
    by (rule tap_shift_overrun) simp_all
  then show ?thesis by simp
qed

text \<open>
  C7. A shift of \<open>N < 256\<close> bits whose captured TDO bits are \<open>tdo\<close>, the link
  returning after each pulse the shift register of the FTDI. \<open>jtag_tap_shift\<close> writes
  the first \<open>N div 8\<close> bytes of the output buffer, byte \<open>i\<close> holding the bits
  \<open>8 * i\<close> to \<open>8 * i + 7\<close> in the order they were shifted, the first in bit 0; every
  later byte of the output buffer keeps the value it had. So the last \<open>N mod 8\<close>
  captured bits of a shift whose bit count is not a multiple of 8 are not delivered: the
  copy loop runs \<open>rx_cnt / 8\<close> times, rounded down.
\<close>

theorem tap_shift_output_whole_bytes_only:
  assumes "unat data_bits < 256"
    and "(unat data_bits + 7) div 8 \<le> length input_data"
    and "(unat data_bits + 7) div 8 \<le> length output_data"
    and "length (data s) = 1024"
    and "length tdo = unat data_bits" and "rx s = ftdi_reply r0 tdo"
  shows "\<exists>s'. jtag_tap_shift input_data output_data data_bits must_end s =
           Inr (map (tdo_byte tdo) [0..<unat data_bits div 8]
                  @ drop (unat data_bits div 8) output_data, s')"
proof -
  have le: "3 * unat data_bits \<le> 1024" using assms(1) by simp
  have r: "unat data_bits mod 256 = unat data_bits" using assms(1) by simp
  have out: "unat data_bits mod 256 div 8 \<le> length output_data"
    using assms(3) unfolding r by linarith
  have "map (\<lambda>k. rx s (7 + k * 8)) [0..<unat data_bits div 8]
      = map (tdo_byte tdo) [0..<unat data_bits div 8]"
  proof (rule map_cong [OF refl])
    fix k assume "k \<in> set [0..<unat data_bits div 8]"
    then have "8 * k + 8 \<le> length tdo" using assms(5) by simp
    then show "rx s (7 + k * 8) = tdo_byte tdo k"
      unfolding assms(6) by (rule ftdi_reply_byte)
  qed
  then show ?thesis
    unfolding tap_shift_run [OF le assms(2,4) out] r by simp
qed

text \<open>
  A shift of 12 bits, all captured as 1, into the output buffer \<open>{0x11, 0x22}\<close>: the
  first byte is delivered, the second byte still reads 0x22 and holds none of the last
  four bits.
\<close>

theorem tap_shift_output_whole_bytes_only_witness:
  "\<exists>s'. jtag_tap_shift [0xA5, 0x0F] [0x11, 0x22] 12 True
           ((jtag_at STATE_SHIFT_DR)\<lparr>rx := ftdi_reply 0 (replicate 12 True)\<rparr>)
         = Inr ([0xFF, 0x22], s')"
proof -
  let ?s = "(jtag_at STATE_SHIFT_DR)\<lparr>rx := ftdi_reply 0 (replicate 12 True)\<rparr>"
  have t: "tdo_byte (replicate 12 True) 0 = 0xFF"
    by code_simp
  have u: "[0..<Suc 0] = [0]" by simp
  have a: "unat (12 :: 32 word) < 256"
    "(unat (12 :: 32 word) + 7) div 8 \<le> length [0xA5, 0x0F :: 8 word]"
    "(unat (12 :: 32 word) + 7) div 8 \<le> length [0x11, 0x22 :: 8 word]"
    "length (data ?s) = 1024"
    "length (replicate 12 True) = unat (12 :: 32 word)"
    "rx ?s = ftdi_reply 0 (replicate 12 True)"
    by (simp_all add: jtag_at_def)
  from tap_shift_output_whole_bytes_only [OF a, of True]
  show ?thesis
    by (simp add: t u)
qed

text \<open>
  The claim as stated fails at that shift: the second byte of the output buffer still
  reads 0x22, while the four bits captured last make the byte 0x0F.
\<close>

theorem tap_shift_partial_byte_counterexample:
  "\<exists>out s'. jtag_tap_shift [0xA5, 0x0F] [0x11, 0x22] 12 True
               ((jtag_at STATE_SHIFT_DR)\<lparr>rx := ftdi_reply 0 (replicate 12 True)\<rparr>)
             = Inr (out, s') \<and>
     out ! 1 = 0x22 \<and> tdo_byte (replicate 12 True) 1 = 0x0F"
proof -
  let ?s = "(jtag_at STATE_SHIFT_DR)\<lparr>rx := ftdi_reply 0 (replicate 12 True)\<rparr>"
  have a: "3 * unat (12 :: 32 word) \<le> 1024"
    "(unat (12 :: 32 word) + 7) div 8 \<le> length [0xA5, 0x0F :: 8 word]"
    "length (data ?s) = 1024"
    "(unat (12 :: 32 word) mod 256) div 8 \<le> length [0x11, 0x22 :: 8 word]"
    by (simp_all add: jtag_at_def)
  have t: "tdo_byte (replicate 12 True) 1 = 0x0F"
    by code_simp
  show ?thesis
    unfolding tap_shift_run [OF a, of True] t by simp
qed

section \<open>Properties of the status read\<close>

text \<open>
  C10. When the IDCODE read at startup is in neither the ECP5 nor the NX table, the
  device type stays \<open>TYPE_NONE\<close>, and \<open>read_status_register\<close> then does this and no
  more: it navigates to Shift-IR, shifts the eight bits of \<open>LSC_READ_STATUS\<close> into the
  instruction register (the first bit is bit 0, TMS is 1 on the last bit only), and
  navigates from Exit1-IR to Shift-DR by the four TMS steps 1, 1, 0, 0. Nothing is written
  to the link after these steps, so no bit is shifted through the data register, and
  nothing is printed; the call returns in Shift-DR.
\<close>

theorem read_status_register_unknown_device:
  assumes "idcode \<notin> snd ` set ecp_devices" and "idcode \<notin> snd ` set nx_devices"
    and "length (data s) = 1024"
  shows "info_type (fst (print_idcode idcode connected_device)) = TYPE_NONE \<and>
         (\<exists>ir s'. read_status_register (fst (print_idcode idcode connected_device)) s
                     = Inr ([], s') \<and>
            sent s' = sent s @ map tms_cmd (tms_path 9 (current_state s) STATE_SHIFT_IR)
                        @ [ir] @ map tms_cmd [True, True, False, False] \<and>
            tdi_wire ir = map (bit LSC_READ_STATUS) [0..<8] \<and>
            tms_wire ir = replicate 7 False @ [True] \<and>
            acks s' = acks s @ tms_path 9 (current_state s) STATE_SHIFT_IR @ [True]
                        @ [True, True, False, False] \<and>
            current_state s' = STATE_SHIFT_DR)"
proof -
  have t: "info_type (fst (print_idcode idcode connected_device)) = TYPE_NONE"
    by (simp add: print_idcode_no_match [OF assms(1,2)] connected_device_def)
  from t read_status_none [OF t assms(3)] show ?thesis by simp
qed

text \<open>
  The IDCODE 0x12345678 is in neither table; the status read is started in
  Test-Logic-Reset.
\<close>

theorem read_status_register_unknown_device_witness:
  "info_type (fst (print_idcode 0x12345678 connected_device)) = TYPE_NONE \<and>
   (\<exists>ir s'. read_status_register (fst (print_idcode 0x12345678 connected_device))
                (jtag_at STATE_TEST_LOGIC_RESET) = Inr ([], s') \<and>
      sent s' = map tms_cmd [False, True, True, False, False] @ [ir]
                  @ map tms_cmd [True, True, False, False] \<and>
      tdi_wire ir = [False, False, True, True, True, True, False, False] \<and>
      tms_wire ir = [False, False, False, False, False, False, False, True] \<and>
      acks s' = [False, True, True, False, False] @ [True] @ [True, True, False, False] \<and>
      current_state s' = STATE_SHIFT_DR)"
proof -
  have a: "0x12345678 \<notin> snd ` set ecp_devices" "0x12345678 \<notin> snd ` set nx_devices"
    "length (data (jtag_at STATE_TEST_LOGIC_RESET)) = 1024"
    by (simp_all add: ecp_devices_def nx_devices_def jtag_at_def)
  have p: "tms_path 9 STATE_TEST_LOGIC_RESET STATE_SHIFT_IR = [False, True, True, False, False]"
    by (simp add: eval_nat_numeral hop_eval del: tms_map.simps)
  have b: "map (bit LSC_READ_STATUS) [0..<8] =
      [False, False, True, True, True, True, False, False]"
    by (simp add: LSC_READ_STATUS_def upt_8)
  have r: "replicate 7 False = [False, False, False, False, False, False, False]"
    by (simp add: eval_nat_numeral)
  have c: "current_state (jtag_at STATE_TEST_LOGIC_RESET) = STATE_TEST_LOGIC_RESET"
    "sent (jtag_at STATE_TEST_LOGIC_RESET) = []" "acks (jtag_at STATE_TEST_LOGIC_RESET) = []"
    by (simp_all add: jtag_at_def)
  from read_status_register_unknown_device [OF a]
  show ?thesis
    unfolding c p b r by simp
qed

section \<open>Properties of the erase pass, of the program pass and of the busy wait\<close>

text \<open>
  C2 (as amended). For the erase request with offset 0x00F000 and length 0x2000 and
  64 KiB blocks, the bytes to erase reach from 0x00F000 to 0x010FFF and so lie in two
  blocks: the aligned range is [0x000000, 0x020000), and the pass issues exactly two
  64 KiB block-erase commands, at 0x000000 and at 0x010000, each after a write enable and
  followed by a wait.
\<close>

theorem erase_example_two_blocks:
  "floor_block (block_bytes Erase_64k) 0x00F000 = 0x000000 \<and>
   ceil_block (block_bytes Erase_64k) (0x00F000 + 0x2000) = 0x020000 \<and>
   erase_pass False Erase_64k 0x00F000 0x2000 =
     [Flash_write_enable, Flash_64kB_sector_erase 0x000000, Flash_wait,
      Flash_write_enable, Flash_64kB_sector_erase 0x010000, Flash_wait]"
  by (simp add: erase_pass_eq aligned_blocks_def floor_block_def ceil_block_def
      block_bytes_def erase_one_def erase_switch_def upt_2)

text \<open>
  The claim as stated, one block-erase command for the range [0x000000, 0x010000), fails:
  the pass erases a second block, at 0x010000.
\<close>

theorem erase_example_one_block_counterexample:
  "concat (map erased_at (erase_pass False Erase_64k 0x00F000 0x2000)) \<noteq> [0x000000]"
  by (simp add: erase_pass_eq aligned_blocks_def floor_block_def ceil_block_def
      block_bytes_def erase_one_def erase_switch_def upt_2)

text \<open>
  C3. For every erase request with byte range \<open>[offset, offset + len)\<close> and block size
  \<open>B\<close> of 4, 32 or 64 KiB, the pass makes, for each block of the aligned range
  \<open>[floor(offset, B), ceil(offset + len, B))\<close> in increasing address order, a write
  enable, the block-erase call of that size at the block's address (a status read when
  verbose) and a wait, and nothing else: the addresses erased are exactly the multiples
  of \<open>B\<close> in the aligned range, each once, and the command issued at each of them is
  the one that erases \<open>B\<close> bytes (the 4 kB sector erase for 4 KiB blocks, the 32 kB one
  for 32 KiB, the 64 kB one for 64 KiB), so that nothing outside the aligned range is
  erased. The request is one whose aligned end fits the \<open>int\<close> variable \<open>end_addr\<close>,
  which holds in the whole 24-bit address space of the flash commands.
\<close>

theorem erase_pass_aligned_range:
  assumes "0 \<le> offset" and "0 \<le> len" and "offset + len + block_bytes b \<le> 2 ^ 31"
  shows "erase_pass verbose b offset len =
           concat (map (erase_one verbose b) (aligned_blocks (block_bytes b) offset len)) \<and>
         concat (map erased_at (erase_pass verbose b offset len)) =
           aligned_blocks (block_bytes b) offset len \<and>
         concat (map erased_blocks (erase_pass verbose b offset len)) =
           map (\<lambda>a. (a, block_bytes b)) (aligned_blocks (block_bytes b) offset len) \<and>
         block_bytes b = (case b of Erase_4k \<Rightarrow> 4096 | Erase_32k \<Rightarrow> 32768
                          | Erase_64k \<Rightarrow> 65536) \<and>
         sorted_wrt (<) (aligned_blocks (block_bytes b) offset len) \<and>
         set (aligned_blocks (block_bytes b) offset len) =
           {a. block_bytes b dvd a \<and> floor_block (block_bytes b) offset \<le> a \<and>
               a < ceil_block (block_bytes b) (offset + len)}"
proof -
  have size: "block_bytes b = (case b of Erase_4k \<Rightarrow> 4096 | Erase_32k \<Rightarrow> 32768
                               | Erase_64k \<Rightarrow> 65536)"
    by (cases b) (simp_all add: block_bytes_def)
  have pass: "erase_pass verbose b offset len =
      concat (map (erase_one verbose b) (aligned_blocks (block_bytes b) offset len))"
    using assms by (rule erase_pass_eq)
  show ?thesis
    unfolding pass erased_at_blocks erased_blocks_blocks
    using size aligned_blocks_increasing [OF block_bytes_pos, of b offset len]
      aligned_blocks_set [OF block_bytes_pos, of b offset len]
    by blast
qed

text \<open>
  Two requests: one over two 4 KiB blocks, and one of exactly the 32 KiB block at
  0x8000, for which the pass issues the 32 kB sector erase and so erases 0x8000 bytes.
\<close>

theorem erase_pass_aligned_range_witness:
  "erase_pass False Erase_4k 0x1800 0x1000 =
     [Flash_write_enable, Flash_4kB_sector_erase 0x1000, Flash_wait,
      Flash_write_enable, Flash_4kB_sector_erase 0x2000, Flash_wait] \<and>
   concat (map erased_at (erase_pass False Erase_4k 0x1800 0x1000)) = [0x1000, 0x2000] \<and>
   concat (map erased_blocks (erase_pass False Erase_4k 0x1800 0x1000)) =
     [(0x1000, 0x1000), (0x2000, 0x1000)] \<and>
   erase_pass True Erase_32k 0x8000 0x8000 =
     [Flash_write_enable, Flash_32kB_sector_erase 0x8000, Flash_read_status, Flash_wait] \<and>
   concat (map erased_blocks (erase_pass True Erase_32k 0x8000 0x8000)) = [(0x8000, 0x8000)]"
proof -
  have a: "(0::int) \<le> 0x1800" "(0::int) \<le> 0x1000"
    "0x1800 + 0x1000 + block_bytes Erase_4k \<le> 2 ^ 31"
    by (simp_all add: block_bytes_def)
  have b: "(0::int) \<le> 0x8000" "(0::int) \<le> 0x8000"
    "0x8000 + 0x8000 + block_bytes Erase_32k \<le> 2 ^ 31"
    by (simp_all add: block_bytes_def)
  have u: "[0..<Suc 0] = [0]" by simp
  from erase_pass_aligned_range [OF a, of False] erase_pass_aligned_range [OF b, of True]
  show ?thesis
    by (simp add: aligned_blocks_def floor_block_def ceil_block_def
        block_bytes_def erase_one_def upt_2 u)
qed

text \<open>
  C9. Over the sequence of status bytes its polls read, \<open>flash_wait\<close> returns after
  \<open>n\<close> polls exactly when \<open>n\<close> is the first number of polls of which the last three
  read the busy bit (bit 0) clear: it returns at the third clear read in a row and not
  before, a busy read in between starting the count again. It never returns exactly when
  the sequence has no three clear reads in a row.
\<close>

theorem flash_wait_three_clear_reads:
  "(flash_wait status = Some n \<longleftrightarrow>
      three_clear status n \<and> (\<forall>m<n. \<not> three_clear status m)) \<and>
   (flash_wait status = None \<longleftrightarrow> (\<forall>n. \<not> three_clear status n))"
  by (simp only: flash_wait_Some_iff flash_wait_None_iff)

text \<open>
  Two runs: a busy read after the first clear one delays the return to the fifth poll;
  and a flash that reads clear twice, then busy, over and over is waited for forever.
\<close>

theorem flash_wait_three_clear_reads_witness:
  "flash_wait (\<lambda>k. if k = 1 then 0x01 else 0x00) = Some 5 \<and>
   flash_wait (\<lambda>k. if k mod 3 = 2 then 0x03 else 0x02) = None"
proof -
  let ?a = "\<lambda>k::nat. if k = 1 then 0x01 else (0x00 :: 8 word)"
  let ?b = "\<lambda>k::nat. if k mod 3 = 2 then 0x03 else (0x02 :: 8 word)"
  have a5: "three_clear ?a 5"
    by (simp add: three_clear_def ready_def)
  have a_less: "\<forall>m<5. \<not> three_clear ?a m"
  proof (intro allI impI)
    fix m :: nat assume "m < 5"
    then have "m = 0 \<or> m = 1 \<or> m = 2 \<or> m = 3 \<or> m = 4" by arith
    then show "\<not> three_clear ?a m"
      by (auto simp: three_clear_def ready_def)
  qed
  have b_none: "\<forall>n. \<not> three_clear ?b n"
  proof (intro allI notI)
    fix n assume t: "three_clear ?b n"
    then have "3 \<le> n" by (simp add: three_clear_def)
    then obtain k where n: "n = k + 3" by (metis le_add_diff_inverse2)
    from t have "k mod 3 \<noteq> 2" "(k + 1) mod 3 \<noteq> 2" "(k + 2) mod 3 \<noteq> 2"
      by (simp_all add: three_clear_def ready_def n split: if_splits)
    with mod3_run [of k] show False by simp
  qed
  from flash_wait_three_clear_reads [of ?a 5] a5 a_less
  have "flash_wait ?a = Some 5" by blast
  moreover from flash_wait_three_clear_reads [of ?b 0] b_none
  have "flash_wait ?b = None" by blast
  ultimately show ?thesis by simp
qed

text \<open>
  C8. The request of the example: a file of 0x144 bytes programmed at offset 0x0FE, which
  covers the addresses 0x0FE to 0x241, without the interleaved verify. The pass makes
  three page-program commands, each after a write enable and followed by a wait: 0x02
  bytes at 0x0FE, 0x100 bytes at 0x100 and 0x100 bytes at 0x200. None crosses a page
  boundary, but the third does not stop at the end of the data (0x42 bytes): its length
  is clamped against \<open>read_blocksize\<close> and not against the number of bytes read, so it
  programs the whole page, the last 0xBE bytes being what \<open>buffer_file\<close> held after the
  bytes of the file.
\<close>

theorem program_example_pages:
  assumes "length file = 0x144" and "length buffer_file = 8192"
  shows "program_loop False readback 0x0FE file 0 buffer_file =
           Inr [Flash_write_enable, Flash_prog 0x0FE (take 0x02 file), Flash_wait,
                Flash_write_enable, Flash_prog 0x100 (take 0x100 (drop 0x02 file)), Flash_wait,
                Flash_write_enable,
                Flash_prog 0x200 (drop 0x102 file @ take 0xBE (drop 0x144 buffer_file)),
                Flash_wait] \<and>
         programs (program_loop False readback 0x0FE file 0 buffer_file)
           = [(0x0FE, 0x02), (0x100, 0x100), (0x200, 0x100)]"
proof -
  from assms(1) have "file \<noteq> []" by auto
  with assms show ?thesis
    by (simp add: program_loop.simps page_loop.simps Let_def read_blocksize_def c_rem_def
        programs_def)
qed

text \<open>
  The example with a file of bytes 0xAA and a buffer that held bytes 0x55: the third
  command programs 0x42 bytes of the file and 0xBE bytes that are not of the file.
\<close>

theorem program_example_pages_witness:
  "program_loop False (\<lambda>a n. []) 0x0FE (replicate 0x144 0xAA) 0 (replicate 8192 0x55) =
     Inr [Flash_write_enable, Flash_prog 0x0FE (replicate 0x02 0xAA), Flash_wait,
          Flash_write_enable, Flash_prog 0x100 (replicate 0x100 0xAA), Flash_wait,
          Flash_write_enable, Flash_prog 0x200 (replicate 0x42 0xAA @ replicate 0xBE 0x55),
          Flash_wait] \<and>
   programs (program_loop False (\<lambda>a n. []) 0x0FE (replicate 0x144 0xAA) 0 (replicate 8192 0x55))
     = [(0x0FE, 0x02), (0x100, 0x100), (0x200, 0x100)]"
  using program_example_pages [of "replicate 0x144 0xAA" "replicate 8192 0x55"
      "\<lambda>a n. []"]
  by (simp add: programs_def)

text \<open>
  The claim as stated, a third write of 0x42 bytes at 0x200, fails.
\<close>

theorem program_example_last_page_counterexample:
  "programs (program_loop False (\<lambda>a n. []) 0x0FE (replicate 0x144 0xAA) 0 (replicate 8192 0x55))
     \<noteq> [(0x0FE, 0x02), (0x100, 0x100), (0x200, 0x42)]"
  by (simp add: program_loop.simps page_loop.simps Let_def read_blocksize_def c_rem_def
      programs_def)

end
